theory Spec2Isabelle
  imports
    Main
    "HOL-Library.AList"
    "HOL-Library.FSet"
    "HOL-Library.Multiset"
    "HOL-Library.Product_Lexorder"
begin

section \<open>Data model of the wallet (src/src/btcWallet/wallet.cpp)\<close>

text \<open>
  Transaction identifiers (\<^verbatim>\<open>uint256\<close>) are natural numbers.  Amounts are
  \<^verbatim>\<open>int64\<close>: the model keeps them as integers and writes the two's-complement
  wrap-around of every addition and subtraction out (\<open>wrap64\<close>), so that a sum the
  source computes is the sum the model computes also where it leaves the 64-bit range.
\<close>

type_synonym uint256 = nat
type_synonym int64 = int
type_synonym CScript = "nat list"

definition INT64_MAX :: int64 where
  "INT64_MAX = 9223372036854775807"

definition INT64_MIN :: int64 where
  "INT64_MIN = - 9223372036854775808"

definition wrap64 :: "int \<Rightarrow> int64" where
  "wrap64 x = (x + 9223372036854775808) mod 18446744073709551616 - 9223372036854775808"

definition add64 :: "int64 \<Rightarrow> int64 \<Rightarrow> int64" where
  "add64 a b = wrap64 (a + b)"

definition sub64 :: "int64 \<Rightarrow> int64 \<Rightarrow> int64" where
  "sub64 a b = wrap64 (a - b)"

text \<open>\<^verbatim>\<open>CTxIn\<close>: only the outpoint \<^verbatim>\<open>txin.prevout\<close> = (hash, n) is read by the wallet.\<close>

record CTxIn =
  prevout_hash :: uint256
  prevout_n :: nat

record CTxOut =
  nValue :: int64
  scriptPubKey :: CScript

text \<open>
  \<^verbatim>\<open>CMerkleTx\<close> is a \<^verbatim>\<open>Transaction\<close> (inputs, outputs, and its hash, which the
  source recomputes with \<^verbatim>\<open>GetHash()\<close> and the model carries as a field) together with
  the merkle-inclusion data \<^verbatim>\<open>_blockHash\<close>, \<^verbatim>\<open>_merkleBranch\<close>, \<^verbatim>\<open>_index\<close>.
  \<^verbatim>\<open>CWalletTx\<close> extends it with the wallet-local metadata.
\<close>

record CMerkleTx =
  GetHash :: uint256
  vin :: "CTxIn list"
  vout :: "CTxOut list"
  blockHash :: uint256
  merkleBranch :: "uint256 list"
  merkleIndex :: int

record CWalletTx = CMerkleTx +
  vtxPrev :: "CMerkleTx list"
  fFromMe :: bool
  vfSpent :: "bool list"
  nTimeReceived :: nat

text \<open>
  The collaborators the wallet only queries, and the helpers declared in headers that are
  not part of the excerpt, are parameters of the model: the chain's \<^verbatim>\<open>isFinal\<close>,
  \<^verbatim>\<open>getDepthInMainChain\<close> and \<^verbatim>\<open>getBlocksToMaturity\<close>; \<^verbatim>\<open>IsCoinBase\<close>;
  \<^verbatim>\<open>IsFromMe\<close> (the debit test, in its \<^verbatim>\<open>Wallet\<close> and its cached \<^verbatim>\<open>CWalletTx\<close>
  form); \<^verbatim>\<open>IsMine\<close> on an output; the constant \<^verbatim>\<open>CENT\<close>; and \<open>addr\<close>, the
  address of the \<^verbatim>\<open>mapWallet\<close> node that holds the record with a given hash (the
  source orders coin references by pointer value when it sorts).
\<close>

record env =
  isFinal :: "CMerkleTx \<Rightarrow> bool"
  getDepthInMainChain :: "uint256 \<Rightarrow> int"
  getBlocksToMaturity :: "CMerkleTx \<Rightarrow> int"
  IsCoinBase :: "CMerkleTx \<Rightarrow> bool"
  IsFromMe :: "CMerkleTx \<Rightarrow> bool"
  IsMine :: "CTxOut \<Rightarrow> bool"
  CENT :: int64
  addr :: "uint256 \<Rightarrow> nat"

text \<open>
  Modelled from the spec: \<^verbatim>\<open>CWalletTx::IsSpent\<close> is declared in WalletTx.h, which is
  not among the sources.  The spec describes a per-output spent bitmap; an output
  the bitmap does not reach is unspent.
\<close>

definition IsSpent :: "CWalletTx \<Rightarrow> nat \<Rightarrow> bool" where
  "IsSpent wtx nOut = (nOut < length (vfSpent wtx) \<and> vfSpent wtx ! nOut)"

subsection \<open>Pseudo-random choices\<close>

text \<open>
  \<^verbatim>\<open>GetRandInt\<close> and \<^verbatim>\<open>rand()\<close> are modelled by an arbitrary sequence of draws
  and the position of the next draw; a theorem for every \<open>RandState\<close> holds for every
  outcome of the generators.
\<close>

record RandState =
  draws :: "nat \<Rightarrow> nat"
  pos :: nat

definition GetRandInt :: "nat \<Rightarrow> RandState \<Rightarrow> nat \<times> RandState" where
  "GetRandInt nMax rs = (draws rs (pos rs) mod nMax, rs\<lparr>pos := pos rs + 1\<rparr>)"

definition rand :: "RandState \<Rightarrow> nat \<times> RandState" where
  "rand rs = (draws rs (pos rs), rs\<lparr>pos := pos rs + 1\<rparr>)"

text \<open>
  \<^verbatim>\<open>random_shuffle(first, last, GetRandInt)\<close>: for \<open>i = 1 .. size - 1\<close>, swap
  position \<open>i\<close> with position \<open>GetRandInt(i + 1)\<close>.
\<close>

definition shuffle_step :: "nat \<Rightarrow> 'a list \<times> RandState \<Rightarrow> 'a list \<times> RandState" where
  "shuffle_step i = (\<lambda>(xs, rs).
     (let (j, rs') = GetRandInt (i + 1) rs
      in ((if i \<noteq> j then xs[i := xs ! j, j := xs ! i] else xs), rs')))"

definition random_shuffle :: "'a list \<Rightarrow> RandState \<Rightarrow> 'a list \<times> RandState" where
  "random_shuffle xs rs = fold shuffle_step [1..<length xs] (xs, rs)"

section \<open>Wallet::IsConfirmed\<close>

text \<open>
  \<^verbatim>\<open>mapPrev\<close> is filled once, when it is found empty.  The source stores every
  supporting transaction under the key \<^verbatim>\<open>tx.GetHash()\<close>, the hash of the transaction
  being checked (wallet.cpp line 393), so the key is the argument \<open>h\<close> here and not
  the hash of \<open>mtx\<close>.
\<close>

fun fill_mapPrev ::
  "uint256 \<Rightarrow> CMerkleTx list \<Rightarrow> (uint256 \<times> CMerkleTx) list \<Rightarrow> (uint256 \<times> CMerkleTx) list" where
  "fill_mapPrev h [] mapPrev = mapPrev"
| "fill_mapPrev h (mtx # rest) mapPrev = fill_mapPrev h rest (AList.update h mtx mapPrev)"

text \<open>The loop over \<^verbatim>\<open>ptx->vin\<close>: \<open>None\<close> is the \<^verbatim>\<open>return false\<close> of a missing key.\<close>

fun push_inputs ::
  "(uint256 \<times> CMerkleTx) list \<Rightarrow> CTxIn list \<Rightarrow> CMerkleTx list \<Rightarrow> CMerkleTx list option" where
  "push_inputs mapPrev [] vWorkQueue = Some vWorkQueue"
| "push_inputs mapPrev (txin # rest) vWorkQueue =
     (case map_of mapPrev (prevout_hash txin) of
        None \<Rightarrow> None
      | Some p \<Rightarrow> push_inputs mapPrev rest (vWorkQueue @ [p]))"

text \<open>
  The work-queue loop.  The queue can grow while it is walked, so the loop need not
  end: not returning is the value \<open>None\<close>.
\<close>

partial_function (option) IsConfirmed_walk ::
  "env \<Rightarrow> CWalletTx \<Rightarrow> (uint256 \<times> CMerkleTx) list \<Rightarrow> CMerkleTx list \<Rightarrow> nat \<Rightarrow> bool option" where
  "IsConfirmed_walk e tx mapPrev vWorkQueue i =
     (if i < length vWorkQueue then
        (let ptx = vWorkQueue ! i in
         if \<not> isFinal e ptx then Some False
         else if 1 \<le> getDepthInMainChain e (GetHash ptx)
           then IsConfirmed_walk e tx mapPrev vWorkQueue (i + 1)
         else if \<not> IsFromMe e ptx then Some False
         else (let mapPrev' = (if mapPrev = []
                               then fill_mapPrev (GetHash tx) (vtxPrev tx) mapPrev
                               else mapPrev)
               in case push_inputs mapPrev' (vin ptx) vWorkQueue of
                    None \<Rightarrow> Some False
                  | Some q \<Rightarrow> IsConfirmed_walk e tx mapPrev' q (i + 1)))
      else Some True)"

definition IsConfirmed :: "env \<Rightarrow> CWalletTx \<Rightarrow> bool option" where
  "IsConfirmed e tx =
     (if \<not> isFinal e (CMerkleTx.truncate tx) then Some False
      else if 1 \<le> getDepthInMainChain e (GetHash tx) then Some True
      else if \<not> IsFromMe e (CMerkleTx.truncate tx) then Some False
      else IsConfirmed_walk e tx [] [CMerkleTx.truncate tx] 0)"

section \<open>Wallet::SelectCoinsMinConf and Wallet::SelectCoins\<close>

text \<open>
  A coin reference \<^verbatim>\<open>pair<const CWalletTx*, unsigned int>\<close> is the record pointed to
  and the output index.  \<open>select_acc\<close> holds the locals the scan updates;
  \<^verbatim>\<open>coinLowestLarger.second.first == NULL\<close> is \<open>None\<close>.
\<close>

type_synonym coin = "CWalletTx \<times> nat"

record select_acc =
  vValue :: "(int64 \<times> coin) list"
  nTotalLower :: int64
  coinLowestLarger :: "int64 \<times> coin option"

text \<open>
  The loop over the outputs of one record (lines 639-666), from output \<open>i\<close> on.
  \<open>Inl\<close> is the early \<^verbatim>\<open>return true\<close> of an exact match.
\<close>

fun scan_vout ::
  "env \<Rightarrow> int64 \<Rightarrow> CWalletTx \<Rightarrow> nat \<Rightarrow> CTxOut list \<Rightarrow> select_acc
     \<Rightarrow> (int64 \<times> coin) + select_acc" where
  "scan_vout e nTargetValue pcoin i [] acc = Inr acc"
| "scan_vout e nTargetValue pcoin i (txout # rest) acc =
     (if IsSpent pcoin i \<or> \<not> IsMine e txout
        then scan_vout e nTargetValue pcoin (i + 1) rest acc
      else if nValue txout \<le> 0
        then scan_vout e nTargetValue pcoin (i + 1) rest acc
      else if nValue txout = nTargetValue
        then Inl (nValue txout, (pcoin, i))
      else if nValue txout < add64 nTargetValue (CENT e)
        then scan_vout e nTargetValue pcoin (i + 1) rest
               (acc\<lparr>vValue := vValue acc @ [(nValue txout, (pcoin, i))],
                    nTotalLower := add64 (nTotalLower acc) (nValue txout)\<rparr>)
      else if nValue txout < fst (coinLowestLarger acc)
        then scan_vout e nTargetValue pcoin (i + 1) rest
               (acc\<lparr>coinLowestLarger := (nValue txout, Some (pcoin, i))\<rparr>)
      else scan_vout e nTargetValue pcoin (i + 1) rest acc)"

text \<open>
  The loop over the shuffled records (lines 627-667).  \<^verbatim>\<open>IsConfirmed\<close> is called only
  for a final record; if it does not return, neither does the scan.
\<close>

fun scan_coins ::
  "env \<Rightarrow> int64 \<Rightarrow> int \<Rightarrow> int \<Rightarrow> CWalletTx list \<Rightarrow> select_acc
     \<Rightarrow> ((int64 \<times> coin) + select_acc) option" where
  "scan_coins e nTargetValue nConfMine nConfTheirs [] acc = Some (Inr acc)"
| "scan_coins e nTargetValue nConfMine nConfTheirs (pcoin # rest) acc =
     (if \<not> isFinal e (CMerkleTx.truncate pcoin)
        then scan_coins e nTargetValue nConfMine nConfTheirs rest acc
      else case IsConfirmed e pcoin of
        None \<Rightarrow> None
      | Some fConfirmed \<Rightarrow>
         (if \<not> fConfirmed
            then scan_coins e nTargetValue nConfMine nConfTheirs rest acc
          else if IsCoinBase e (CMerkleTx.truncate pcoin)
                  \<and> 0 < getBlocksToMaturity e (CMerkleTx.truncate pcoin)
            then scan_coins e nTargetValue nConfMine nConfTheirs rest acc
          else if getDepthInMainChain e (GetHash pcoin)
                  < (if IsFromMe e (CMerkleTx.truncate pcoin) then nConfMine else nConfTheirs)
            then scan_coins e nTargetValue nConfMine nConfTheirs rest acc
          else case scan_vout e nTargetValue pcoin 0 (vout pcoin) acc of
                 Inl hit \<Rightarrow> Some (Inl hit)
               | Inr acc' \<Rightarrow> scan_coins e nTargetValue nConfMine nConfTheirs rest acc'))"

subsection \<open>The randomized subset-sum approximation (lines 692-725)\<close>

record trial_state =
  rnd :: RandState
  nTotal :: int64
  vfIncluded :: "bool list"
  fReachedTarget :: bool
  nBest :: int64
  vfBest :: "bool list"

text \<open>The body of the loop over \<open>i\<close>; \<^verbatim>\<open>rand()\<close> is called in pass 0 only.\<close>

definition trial_step ::
  "nat \<Rightarrow> int64 \<Rightarrow> (int64 \<times> coin) list \<Rightarrow> nat \<Rightarrow> trial_state \<Rightarrow> trial_state" where
  "trial_step nPass nTargetValue vals i s =
     (let (fTake, rs') =
            (if nPass = 0
             then (let (r, rs1) = rand (rnd s) in (r mod 2 \<noteq> 0, rs1))
             else (\<not> vfIncluded s ! i, rnd s))
      in if fTake then
           (let nTotal' = add64 (nTotal s) (fst (vals ! i));
                vfIncluded' = (vfIncluded s)[i := True]
            in if nTargetValue \<le> nTotal' then
                 s\<lparr>rnd := rs',
                   fReachedTarget := True,
                   nBest := (if nTotal' < nBest s then nTotal' else nBest s),
                   vfBest := (if nTotal' < nBest s then vfIncluded' else vfBest s),
                   nTotal := sub64 nTotal' (fst (vals ! i)),
                   vfIncluded := vfIncluded'[i := False]\<rparr>
               else s\<lparr>rnd := rs', nTotal := nTotal', vfIncluded := vfIncluded'\<rparr>)
         else s\<lparr>rnd := rs'\<rparr>)"

text \<open>The loop over \<open>nPass\<close>: at most two passes, none once the target was reached.\<close>

function trial_passes ::
  "nat \<Rightarrow> int64 \<Rightarrow> (int64 \<times> coin) list \<Rightarrow> trial_state \<Rightarrow> trial_state" where
  "trial_passes nPass nTargetValue vals s =
     (if nPass < 2 \<and> \<not> fReachedTarget s
      then trial_passes (nPass + 1) nTargetValue vals
             (fold (trial_step nPass nTargetValue vals) [0..<length vals] s)
      else s)"
  by pat_completeness auto
termination
  by (relation "measure (\<lambda>(nPass, nTargetValue, vals, s). 2 - nPass)") auto

text \<open>The loop over \<open>nRep\<close>: at most 1000 trials, none once the best sum is the target.\<close>

function trials ::
  "nat \<Rightarrow> int64 \<Rightarrow> (int64 \<times> coin) list \<Rightarrow> trial_state \<Rightarrow> trial_state" where
  "trials nRep nTargetValue vals s =
     (if nRep < 1000 \<and> nBest s \<noteq> nTargetValue
      then trials (nRep + 1) nTargetValue vals
             (trial_passes 0 nTargetValue vals
                (s\<lparr>vfIncluded := replicate (length vals) False,
                    nTotal := 0,
                    fReachedTarget := False\<rparr>))
      else s)"
  by pat_completeness auto
termination
  by (relation "measure (\<lambda>(nRep, nTargetValue, vals, s). 1000 - nRep)") auto

text \<open>
  The two loops are unfolded by hand in the proofs: their equations are recursive without
  a pattern to stop the simplifier.
\<close>

declare trial_passes.simps [simp del]
declare trials.simps [simp del]

text \<open>
  The two loops that fill the result: all of \<^verbatim>\<open>vValue\<close> (lines 672-676), and the
  entries of \<^verbatim>\<open>vValue\<close> marked in \<^verbatim>\<open>vfBest\<close> (lines 734-739).
\<close>

fun insert_all :: "(int64 \<times> coin) list \<Rightarrow> coin set \<times> int64 \<Rightarrow> coin set \<times> int64" where
  "insert_all [] r = r"
| "insert_all (c # cs) (setCoinsRet, nValueRet) =
     insert_all cs (insert (snd c) setCoinsRet, add64 nValueRet (fst c))"

fun insert_best ::
  "bool list \<Rightarrow> (int64 \<times> coin) list \<Rightarrow> coin set \<times> int64 \<Rightarrow> coin set \<times> int64" where
  "insert_best (b # bs) (c # cs) (setCoinsRet, nValueRet) =
     insert_best bs cs
       (if b then (insert (snd c) setCoinsRet, add64 nValueRet (fst c))
        else (setCoinsRet, nValueRet))"
| "insert_best bs cs r = r"

text \<open>
  \<^verbatim>\<open>sort(vValue.rbegin(), vValue.rend())\<close>: descending in the order of the pairs
  (value, (pointer, index)).
\<close>

definition sort_key_of :: "env \<Rightarrow> int64 \<times> coin \<Rightarrow> int \<times> nat \<times> nat" where
  "sort_key_of e c = (fst c, addr e (GetHash (fst (snd c))), snd (snd c))"

definition sort_descending :: "env \<Rightarrow> (int64 \<times> coin) list \<Rightarrow> (int64 \<times> coin) list" where
  "sort_descending e vals = rev (sort_key (sort_key_of e) vals)"

text \<open>
  Lines 670-749, after the scan.  The result is the returned flag, \<^verbatim>\<open>setCoinsRet\<close>
  and \<^verbatim>\<open>nValueRet\<close>; both outputs were cleared on entry (lines 609-610).
\<close>

definition select_from ::
  "env \<Rightarrow> int64 \<Rightarrow> select_acc \<Rightarrow> RandState \<Rightarrow> (bool \<times> coin set \<times> int64) \<times> RandState" where
  "select_from e nTargetValue acc rs =
     (if nTotalLower acc = nTargetValue \<or> nTotalLower acc = add64 nTargetValue (CENT e)
        then ((True, insert_all (vValue acc) ({}, 0)), rs)
      else if nTotalLower acc
                < add64 nTargetValue (if snd (coinLowestLarger acc) \<noteq> None then CENT e else 0)
        then (case snd (coinLowestLarger acc) of
                None \<Rightarrow> ((False, {}, 0), rs)
              | Some c \<Rightarrow> ((True, {c}, add64 0 (fst (coinLowestLarger acc))), rs))
      else
        (let nTargetValue' = (if add64 nTargetValue (CENT e) \<le> nTotalLower acc
                              then add64 nTargetValue (CENT e) else nTargetValue);
             vals = sort_descending e (vValue acc);
             s = trials 0 nTargetValue' vals
                   \<lparr>rnd = rs, nTotal = 0, vfIncluded = [], fReachedTarget = False,
                    nBest = nTotalLower acc, vfBest = replicate (length vals) True\<rparr>
         in case snd (coinLowestLarger acc) of
              Some c \<Rightarrow>
                (if sub64 (fst (coinLowestLarger acc)) nTargetValue' \<le> sub64 (nBest s) nTargetValue'
                 then ((True, {c}, add64 0 (fst (coinLowestLarger acc))), rnd s)
                 else ((True, insert_best (vfBest s) vals ({}, 0)), rnd s))
            | None \<Rightarrow> ((True, insert_best (vfBest s) vals ({}, 0)), rnd s)))"

text \<open>
  \<^verbatim>\<open>mapWallet\<close> is the list of its (key, record) pairs in key order; \<^verbatim>\<open>vCoins\<close> is
  the shuffled list of the records.
\<close>

definition SelectCoinsMinConf ::
  "env \<Rightarrow> (uint256 \<times> CWalletTx) list \<Rightarrow> RandState \<Rightarrow> int64 \<Rightarrow> int \<Rightarrow> int
     \<Rightarrow> ((bool \<times> coin set \<times> int64) \<times> RandState) option" where
  "SelectCoinsMinConf e mapWallet rs nTargetValue nConfMine nConfTheirs =
     (let (vCoins, rs1) = random_shuffle (map snd mapWallet) rs
      in case scan_coins e nTargetValue nConfMine nConfTheirs vCoins
                \<lparr>vValue = [], nTotalLower = 0, coinLowestLarger = (INT64_MAX, None)\<rparr> of
           None \<Rightarrow> None
         | Some (Inl hit) \<Rightarrow> Some ((True, {snd hit}, add64 0 (fst hit)), rs1)
         | Some (Inr acc) \<Rightarrow> Some (select_from e nTargetValue acc rs1))"

text \<open>\<^verbatim>\<open>a || b || c\<close>: the next call is made only when the one before returned false.\<close>

definition SelectCoins ::
  "env \<Rightarrow> (uint256 \<times> CWalletTx) list \<Rightarrow> RandState \<Rightarrow> int64
     \<Rightarrow> ((bool \<times> coin set \<times> int64) \<times> RandState) option" where
  "SelectCoins e mapWallet rs nTargetValue =
     (case SelectCoinsMinConf e mapWallet rs nTargetValue 1 6 of
        None \<Rightarrow> None
      | Some (r1, rs1) \<Rightarrow>
          if fst r1 then Some (r1, rs1)
          else (case SelectCoinsMinConf e mapWallet rs1 nTargetValue 1 1 of
                  None \<Rightarrow> None
                | Some (r2, rs2) \<Rightarrow>
                    if fst r2 then Some (r2, rs2)
                    else SelectCoinsMinConf e mapWallet rs2 nTargetValue 0 1))"

section \<open>Wallet::Unlock\<close>

text \<open>
  The key-derivation and cipher operations of \<^verbatim>\<open>CCrypter\<close> (btc/crypter.h) and the
  key store's own \<^verbatim>\<open>CCryptoKeyStore::Unlock\<close> are not among the sources; they are
  parameters.  \<open>SetKeyFromPassphrase\<close> yields the crypter's key, or \<open>None\<close> where
  the source's call returns false; \<open>Decrypt\<close> yields the plaintext or \<open>None\<close>;
  \<open>CCryptoKeyStore_Unlock\<close> says whether the candidate master key validates and
  gives the key store it leaves.
\<close>

type_synonym bytes = "nat list"

record CMasterKey =
  vchCryptedKey :: bytes
  vchSalt :: bytes
  nDerivationMethod :: nat
  nDeriveIterations :: nat

record KeyStore =
  fUseCrypto :: bool
  vMasterKey :: bytes

record crypto =
  SetKeyFromPassphrase :: "string \<Rightarrow> bytes \<Rightarrow> nat \<Rightarrow> nat \<Rightarrow> bytes option"
  Decrypt :: "bytes \<Rightarrow> bytes \<Rightarrow> bytes option"
  CCryptoKeyStore_Unlock :: "KeyStore \<Rightarrow> bytes \<Rightarrow> bool \<times> KeyStore"

text \<open>
  Modelled from the spec: \<^verbatim>\<open>IsLocked\<close> is declared in the key store's header, which
  is not among the sources.  The spec's lock manager is locked when the wallet is
  encrypted and the in-memory symmetric key has been discarded.
\<close>

definition IsLocked :: "KeyStore \<Rightarrow> bool" where
  "IsLocked ks = (fUseCrypto ks \<and> vMasterKey ks = [])"

text \<open>
  The loop over \<^verbatim>\<open>mapMasterKeys\<close> (lines 60-68), in key order.  A failed derivation
  and a failed decryption each \<^verbatim>\<open>return false\<close>; only a master key that does not
  validate lets the loop go on to the next record.
\<close>

fun Unlock_loop ::
  "crypto \<Rightarrow> string \<Rightarrow> (nat \<times> CMasterKey) list \<Rightarrow> KeyStore \<Rightarrow> bool \<times> KeyStore" where
  "Unlock_loop c strWalletPassphrase [] ks = (False, ks)"
| "Unlock_loop c strWalletPassphrase (pMasterKey # rest) ks =
     (case SetKeyFromPassphrase c strWalletPassphrase (vchSalt (snd pMasterKey))
             (nDeriveIterations (snd pMasterKey)) (nDerivationMethod (snd pMasterKey)) of
        None \<Rightarrow> (False, ks)
      | Some crypter \<Rightarrow>
          (case Decrypt c crypter (vchCryptedKey (snd pMasterKey)) of
             None \<Rightarrow> (False, ks)
           | Some vMasterKey' \<Rightarrow>
               (case CCryptoKeyStore_Unlock c ks vMasterKey' of
                  (True, ks') \<Rightarrow> (True, ks')
                | (False, ks') \<Rightarrow> Unlock_loop c strWalletPassphrase rest ks')))"

definition Unlock ::
  "crypto \<Rightarrow> (nat \<times> CMasterKey) list \<Rightarrow> KeyStore \<Rightarrow> string \<Rightarrow> bool \<times> KeyStore" where
  "Unlock c mapMasterKeys ks strWalletPassphrase =
     (if \<not> IsLocked ks then (False, ks)
      else Unlock_loop c strWalletPassphrase mapMasterKeys ks)"

section \<open>The key pool (wallet.cpp, lines 1087-1155)\<close>

text \<open>
  The errors of the wallet are values: each \<^verbatim>\<open>throw runtime_error\<close>, the failed
  \<^verbatim>\<open>assert\<close> and a read past the end of a vector are constructors of
  \<open>wallet_error\<close>.
\<close>

datatype wallet_error =
    WritePoolFailed
  | ReadPoolFailed
  | UnknownKeyInPool
  | AssertionFailed
  | OutOfRange
  | KeyPoolFailed










section \<open>Wallet::CreateTransaction: the checks on the amounts (lines 758-768)\<close>

text \<open>
  The loop over \<open>vecSend\<close> (lines 761-766) tests the running total before each
  addition and returns false where it is negative; the amount \<^verbatim>\<open>s.second\<close> itself
  is never tested.  \<open>None\<close> is that \<^verbatim>\<open>return false\<close>.  The source's \<^verbatim>\<open>nValue\<close> is
  \<open>nVal\<close> here, \<open>nValue\<close> being the field of \<open>CTxOut\<close>.
\<close>

fun sum_amounts :: "(CScript \<times> int64) list \<Rightarrow> int64 \<Rightarrow> int64 option" where
  "sum_amounts [] nVal = Some nVal"
| "sum_amounts (s # rest) nVal =
     (if nVal < 0 then None else sum_amounts rest (add64 nVal (snd s)))"

text \<open>
  \<open>CreateTransaction\<close> returns false (\<open>None\<close>) from the loop, for an empty
  \<open>vecSend\<close> and for a negative total (lines 767-768).  Otherwise it enters the fee
  loop of lines 770-876 with the total.  That loop selects coins, reserves a change key,
  signs and sets the fee; signing, the serialized size and the minimum fee are not among
  the sources, and no statement of the loop looks at the sign of an amount.  It is the
  parameter \<open>fee_loop\<close>, which yields the transaction built, or \<open>None\<close> where the
  loop returns false.
\<close>

definition CreateTransaction ::
  "(int64 \<Rightarrow> (CScript \<times> int64) list \<Rightarrow> 'tx option)
     \<Rightarrow> (CScript \<times> int64) list \<Rightarrow> 'tx option" where
  "CreateTransaction fee_loop vecSend =
     (case sum_amounts vecSend 0 of
        None \<Rightarrow> None
      | Some nVal \<Rightarrow>
          if vecSend = [] \<or> nVal < 0 then None else fee_loop nVal vecSend)"


section \<open>Wallet::AddToWallet and Wallet::WalletUpdateSpent (lines 201-296)\<close>

text \<open>
  Modelled from the spec: \<^verbatim>\<open>CWalletTx::UpdateSpent\<close> and \<^verbatim>\<open>CWalletTx::MarkSpent\<close> are
  declared in WalletTx.h, which is not among the sources.  The spec describes a
  per-output spent bitmap that a merge never sets back from true to false and that only
  grows, by an explicit resize, to the number of outputs; marking a coin spent sets its
  bit and is idempotent.  \<open>UpdateSpent\<close> sets the bits of the stored bitmap that the
  new bitmap has, within the stored length, and says whether it changed a bit;
  \<open>MarkSpent\<close> extends the bitmap to the number of outputs and sets the bit.
\<close>

fun spent_or :: "bool list \<Rightarrow> bool list \<Rightarrow> bool list" where
  "spent_or (b # bs) (c # cs) = (b \<or> c) # spent_or bs cs"
| "spent_or bs [] = bs"
| "spent_or [] cs = []"

definition UpdateSpent :: "CWalletTx \<Rightarrow> bool list \<Rightarrow> bool \<times> CWalletTx" where
  "UpdateSpent wtx vfNewSpent =
     (spent_or (vfSpent wtx) vfNewSpent \<noteq> vfSpent wtx,
      wtx\<lparr>vfSpent := spent_or (vfSpent wtx) vfNewSpent\<rparr>)"

definition MarkSpent :: "CWalletTx \<Rightarrow> nat \<Rightarrow> CWalletTx" where
  "MarkSpent wtx nOut =
     wtx\<lparr>vfSpent := (vfSpent wtx @ replicate (length (vout wtx) - length (vfSpent wtx)) False)
                       [nOut := True]\<rparr>"

text \<open>
  What a call takes from outside the wallet map: the adjusted time, whether
  \<^verbatim>\<open>WriteToDisk\<close> succeeds for the record, and the block of lines 270-284 that replaces
  the default receiving key when the record pays to it.  That block reads the outputs
  of the record and works on the default key, the key pool and the address book, none
  of which is part of this state; it is a parameter that says whether the block throws
  (\<^verbatim>\<open>GetKeyFromPool\<close> throws where the key pool does).  \<^verbatim>\<open>IsMine\<close> is the one of
  \<open>env\<close>, as the key store answers it when \<^verbatim>\<open>WalletUpdateSpent\<close> runs.
\<close>

record wallet_io =
  GetAdjustedTime :: nat
  WriteToDisk :: "CWalletTx \<Rightarrow> bool"
  ReplaceDefaultKey :: "CWalletTx \<Rightarrow> wallet_error option"

text \<open>
  The state is \<^verbatim>\<open>mapWallet\<close>, the list of its (key, record) pairs in key order, and
  the queue \<^verbatim>\<open>vWalletUpdated\<close>.
\<close>

type_synonym wallet_state = "(uint256 \<times> CWalletTx) list \<times> uint256 list"

text \<open>
  \<^verbatim>\<open>WalletUpdateSpent\<close> (lines 201-224): for each input whose previous transaction is
  in the wallet, the output it spends is marked spent if it is not yet and is owned.
  \<^verbatim>\<open>wtx.vout[txin.prevout.n]\<close> is read only where \<open>IsSpent\<close> is false; an index
  past the end of \<^verbatim>\<open>vout\<close> is the error \<open>OutOfRange\<close>, with the state reached so far.
  The result of the \<^verbatim>\<open>WriteToDisk\<close> of line 219 is not used by the source.
\<close>

fun WalletUpdateSpent_loop ::
  "env \<Rightarrow> CTxIn list \<Rightarrow> wallet_state \<Rightarrow> wallet_error option \<times> wallet_state" where
  "WalletUpdateSpent_loop e [] st = (None, st)"
| "WalletUpdateSpent_loop e (txin # rest) st =
     (case map_of (fst st) (prevout_hash txin) of
        None \<Rightarrow> WalletUpdateSpent_loop e rest st
      | Some wtx \<Rightarrow>
          if IsSpent wtx (prevout_n txin) then WalletUpdateSpent_loop e rest st
          else if length (vout wtx) \<le> prevout_n txin then (Some OutOfRange, st)
          else if IsMine e (vout wtx ! prevout_n txin) then
            WalletUpdateSpent_loop e rest
              (AList.update (prevout_hash txin) (MarkSpent wtx (prevout_n txin)) (fst st),
               snd st @ [prevout_hash txin])
          else WalletUpdateSpent_loop e rest st)"

definition WalletUpdateSpent ::
  "env \<Rightarrow> CWalletTx \<Rightarrow> wallet_state \<Rightarrow> wallet_error option \<times> wallet_state" where
  "WalletUpdateSpent e tx st = WalletUpdateSpent_loop e (vin tx) st"

text \<open>
  The merge of lines 243-259 into the record found, with the flag \<^verbatim>\<open>fUpdated\<close>.
\<close>

definition merge_record :: "CWalletTx \<Rightarrow> CWalletTx \<Rightarrow> bool \<times> CWalletTx" where
  "merge_record wtxIn wtx =
     (let fUpdated1 = (blockHash wtxIn \<noteq> 0 \<and> blockHash wtxIn \<noteq> blockHash wtx);
          wtx1 = (if fUpdated1 then wtx\<lparr>blockHash := blockHash wtxIn\<rparr> else wtx);
          fUpdated2 = (merkleIndex wtxIn \<noteq> - 1
                       \<and> (merkleBranch wtxIn \<noteq> merkleBranch wtx1
                            \<or> merkleIndex wtxIn \<noteq> merkleIndex wtx1));
          wtx2 = (if fUpdated2
                  then wtx1\<lparr>merkleBranch := merkleBranch wtxIn, merkleIndex := merkleIndex wtxIn\<rparr>
                  else wtx1);
          fUpdated3 = (fFromMe wtxIn \<and> fFromMe wtxIn \<noteq> fFromMe wtx2);
          wtx3 = (if fUpdated3 then wtx2\<lparr>fFromMe := fFromMe wtxIn\<rparr> else wtx2);
          (fUpdated4, wtx4) = UpdateSpent wtx3 (vfSpent wtxIn)
      in (fUpdated1 \<or> fUpdated2 \<or> fUpdated3 \<or> fUpdated4, wtx4))"

text \<open>
  Lines 231-260: \<^verbatim>\<open>mapWallet.insert\<close> inserts only where the hash is not yet a key; a
  new record gets its time of receipt, a record found is merged.  The result is
  \<^verbatim>\<open>fInsertedNew\<close>, \<^verbatim>\<open>fUpdated\<close>, the record \<^verbatim>\<open>wtx\<close> of the map and the map.
\<close>

definition insert_or_merge ::
  "wallet_io \<Rightarrow> (uint256 \<times> CWalletTx) list \<Rightarrow> CWalletTx
     \<Rightarrow> bool \<times> bool \<times> CWalletTx \<times> (uint256 \<times> CWalletTx) list" where
  "insert_or_merge io mapWallet wtxIn =
     (case map_of mapWallet (GetHash wtxIn) of
        None \<Rightarrow>
          (let wtx = wtxIn\<lparr>nTimeReceived := GetAdjustedTime io\<rparr>
           in (True, False, wtx, insort_key fst (GetHash wtxIn, wtx) mapWallet))
      | Some found \<Rightarrow>
          (let (fUpdated, wtx) = merge_record wtxIn found
           in (False, fUpdated, wtx, AList.update (GetHash wtxIn) wtx mapWallet)))"

text \<open>
  \<open>AddToWallet\<close> returns false (\<open>Inr False\<close>) where the write of line 266 fails,
  with the record already in the map; an exception is \<open>Inl\<close>; the state is the one the
  call leaves in each case.
\<close>

definition AddToWallet ::
  "env \<Rightarrow> wallet_io \<Rightarrow> wallet_state \<Rightarrow> CWalletTx \<Rightarrow> (wallet_error + bool) \<times> wallet_state" where
  "AddToWallet e io st wtxIn =
     (case insert_or_merge io (fst st) wtxIn of
        (fInsertedNew, fUpdated, wtx, mapWallet1) \<Rightarrow>
          if (fInsertedNew \<or> fUpdated) \<and> \<not> WriteToDisk io wtx
          then (Inr False, (mapWallet1, snd st))
          else
            (case ReplaceDefaultKey io wtx of
               Some err \<Rightarrow> (Inl err, (mapWallet1, snd st))
             | None \<Rightarrow>
                 (case WalletUpdateSpent e wtx (mapWallet1, snd st @ [GetHash wtxIn]) of
                    (Some err, st') \<Rightarrow> (Inl err, st')
                  | (None, st') \<Rightarrow> (Inr True, st'))))"


section \<open>Notions used to state and prove the properties of the coin selection\<close>

subsection \<open>Candidates\<close>

text \<open>
  A record is eligible when the scan of \<open>scan_coins\<close> does not skip it: it is final,
  \<open>IsConfirmed\<close> returns true for it, it is not an immature coinbase, and its depth
  reaches the threshold for its origin.
\<close>

definition tx_eligible :: "env \<Rightarrow> int \<Rightarrow> int \<Rightarrow> CWalletTx \<Rightarrow> bool" where
  "tx_eligible e nConfMine nConfTheirs pcoin =
     (isFinal e (CMerkleTx.truncate pcoin) \<and> IsConfirmed e pcoin = Some True \<and>
      \<not> (IsCoinBase e (CMerkleTx.truncate pcoin)
           \<and> 0 < getBlocksToMaturity e (CMerkleTx.truncate pcoin)) \<and>
      \<not> getDepthInMainChain e (GetHash pcoin)
           < (if IsFromMe e (CMerkleTx.truncate pcoin) then nConfMine else nConfTheirs))"

text \<open>
  The candidates of a record are its unspent owned outputs of positive value, each with
  its value and its coin reference; the candidates of a list of records are those of
  its eligible records, in scan order.
\<close>

fun vout_candidates :: "env \<Rightarrow> CWalletTx \<Rightarrow> nat \<Rightarrow> CTxOut list \<Rightarrow> (int64 \<times> coin) list" where
  "vout_candidates e pcoin i [] = []"
| "vout_candidates e pcoin i (txout # rest) =
     (if \<not> IsSpent pcoin i \<and> IsMine e txout \<and> 0 < nValue txout
      then [(nValue txout, (pcoin, i))] else [])
     @ vout_candidates e pcoin (i + 1) rest"

definition candidates :: "env \<Rightarrow> int \<Rightarrow> int \<Rightarrow> CWalletTx list \<Rightarrow> (int64 \<times> coin) list" where
  "candidates e nConfMine nConfTheirs vCoins =
     concat (map (\<lambda>pcoin. if tx_eligible e nConfMine nConfTheirs pcoin
                           then vout_candidates e pcoin 0 (vout pcoin) else []) vCoins)"

text \<open>The value of the output a coin reference points to.\<close>

definition coin_value :: "coin \<Rightarrow> int64" where
  "coin_value c = nValue (vout (fst c) ! snd c)"

text \<open>
  What the scan does with one candidate after the other (the four-way test of lines
  651-665); \<open>scan_vout\<close> and \<open>scan_coins\<close> are shown to compute this on the
  candidates.  \<open>scan_start\<close> is the state the scan starts from.
\<close>

fun classify ::
  "int64 \<Rightarrow> int64 \<Rightarrow> (int64 \<times> coin) list \<Rightarrow> select_acc \<Rightarrow> (int64 \<times> coin) + select_acc" where
  "classify T C [] acc = Inr acc"
| "classify T C (c # cs) acc =
     (if fst c = T then Inl c
      else if fst c < add64 T C
        then classify T C cs (acc\<lparr>vValue := vValue acc @ [c],
                                    nTotalLower := add64 (nTotalLower acc) (fst c)\<rparr>)
      else if fst c < fst (coinLowestLarger acc)
        then classify T C cs (acc\<lparr>coinLowestLarger := (fst c, Some (snd c))\<rparr>)
      else classify T C cs acc)"

definition scan_start :: select_acc where
  "scan_start = \<lparr>vValue = [], nTotalLower = 0, coinLowestLarger = (INT64_MAX, None)\<rparr>"

subsection \<open>Sums of selected entries\<close>

text \<open>
  The entries of a list that a list of flags marks, and their sum; \<open>amounts_ok\<close>
  says that the values are not negative and that their sum fits in 64 bits.
\<close>

fun sel_sum :: "bool list \<Rightarrow> (int64 \<times> coin) list \<Rightarrow> int" where
  "sel_sum (b # bs) (c # cs) = (if b then fst c else 0) + sel_sum bs cs"
| "sel_sum bs cs = 0"

fun chosen :: "bool list \<Rightarrow> (int64 \<times> coin) list \<Rightarrow> (int64 \<times> coin) list" where
  "chosen (b # bs) (c # cs) = (if b then [c] else []) @ chosen bs cs"
| "chosen bs cs = []"


text \<open>
  The invariants of the trials, in 64-bit arithmetic: each running total is the wrapped
  sum of the entries marked, whether or not a sum has left the 64-bit range.
\<close>

definition incl_wrapped :: "(int64 \<times> coin) list \<Rightarrow> trial_state \<Rightarrow> bool" where
  "incl_wrapped vals s =
     (length (vfIncluded s) = length vals \<and> nTotal s = wrap64 (sel_sum (vfIncluded s) vals))"

definition best_wrapped :: "(int64 \<times> coin) list \<Rightarrow> trial_state \<Rightarrow> bool" where
  "best_wrapped vals s =
     (length (vfBest s) = length vals \<and> nBest s = wrap64 (sel_sum (vfBest s) vals))"

subsection \<open>Well-formed wallets\<close>

text \<open>
  No input of a record names the record's own hash.  The identifier of a transaction
  is the hash of its content, inputs included, so real transactions satisfy this.
\<close>

definition no_self_spend :: "CWalletTx \<Rightarrow> bool" where
  "no_self_spend tx = list_all (\<lambda>txin. prevout_hash txin \<noteq> GetHash tx) (vin tx)"

definition wallet_no_self_spend :: "(uint256 \<times> CWalletTx) list \<Rightarrow> bool" where
  "wallet_no_self_spend mapWallet = list_all (\<lambda>item. no_self_spend (snd item)) mapWallet"

text \<open>
  \<^verbatim>\<open>mapWallet\<close> is a map (its keys are distinct) and files every record under the
  record's hash (\<^verbatim>\<open>AddToWallet\<close> inserts under \<^verbatim>\<open>wtxIn.GetHash()\<close>).  Then two
  entries never hold the same record, and a coin reference, which the model keeps as
  the record and the output index, names one output as the pointer of the source does.
\<close>

definition wallet_keys_ok :: "(uint256 \<times> CWalletTx) list \<Rightarrow> bool" where
  "wallet_keys_ok mapWallet =
     (distinct (map fst mapWallet) \<and> list_all (\<lambda>item. GetHash (snd item) = fst item) mapWallet)"

text \<open>
  The total of the first \<open>k\<close> amounts of \<open>vecSend\<close>, as the 64-bit additions of
  \<open>CreateTransaction\<close> compute it.
\<close>

definition running_total :: "(CScript \<times> int64) list \<Rightarrow> nat \<Rightarrow> int64" where
  "running_total vecSend k = fold (\<lambda>s nVal. add64 nVal (snd s)) (take k vecSend) 0"

subsection \<open>Merges that never unset\<close>

text \<open>
  \<open>spent_le\<close>: the new bitmap has every bit of the old one.  \<open>spent_grown\<close>: the
  new record is the old one but for its bitmap, which has every bit of the old one and
  is no longer than the longer of the old bitmap and the outputs.  \<open>wallet_grown\<close>:
  the same keys in the same order, each record grown.  \<open>record_merged\<close>: the
  transaction and the time of receipt are the same, and a block hash, a merkle index,
  the flag \<^verbatim>\<open>fFromMe\<close> and a spent bit that were set are set.
\<close>

definition spent_le :: "bool list \<Rightarrow> bool list \<Rightarrow> bool" where
  "spent_le old new = (length old \<le> length new \<and> (\<forall>i<length old. old ! i \<longrightarrow> new ! i))"

definition spent_grown :: "CWalletTx \<Rightarrow> CWalletTx \<Rightarrow> bool" where
  "spent_grown old new =
     (new = old\<lparr>vfSpent := vfSpent new\<rparr> \<and> spent_le (vfSpent old) (vfSpent new)
      \<and> length (vfSpent new) \<le> max (length (vfSpent old)) (length (vout old)))"

definition wallet_grown :: "(uint256 \<times> CWalletTx) list \<Rightarrow> (uint256 \<times> CWalletTx) list \<Rightarrow> bool" where
  "wallet_grown old new =
     list_all2 (\<lambda>a b. fst b = fst a \<and> spent_grown (snd a) (snd b)) old new"


text \<open>
  \<open>merged_in\<close>: the record has the confirmation data and the flag of \<open>wtxIn\<close>
  wherever \<open>wtxIn\<close> has them set.  \<open>spent_in\<close>: the stored bitmap has every bit of
  the new one within its length.
\<close>

definition merged_in :: "CWalletTx \<Rightarrow> CWalletTx \<Rightarrow> bool" where
  "merged_in wtxIn wtx =
     ((blockHash wtxIn \<noteq> 0 \<longrightarrow> blockHash wtx = blockHash wtxIn)
      \<and> (merkleIndex wtxIn \<noteq> - 1 \<longrightarrow>
           merkleBranch wtx = merkleBranch wtxIn \<and> merkleIndex wtx = merkleIndex wtxIn)
      \<and> (fFromMe wtxIn \<longrightarrow> fFromMe wtx))"

definition spent_in :: "bool list \<Rightarrow> bool list \<Rightarrow> bool" where
  "spent_in vfNewSpent vfOld =
     (\<forall>i<length vfOld. i < length vfNewSpent \<and> vfNewSpent ! i \<longrightarrow> vfOld ! i)"

section \<open>Concrete inputs\<close>

text \<open>
  A chain on which every transaction is final, at depth 3 and not from this wallet, a
  record with hash \<open>h\<close> and one unspent owned output per given value, and the
  sequence of draws \<open>0, 1, 2, \<dots>\<close>.
\<close>

definition demo_env :: env where
  "demo_env = \<lparr>isFinal = (\<lambda>_. True), getDepthInMainChain = (\<lambda>h. 3),
     getBlocksToMaturity = (\<lambda>_. 0), IsCoinBase = (\<lambda>_. False), IsFromMe = (\<lambda>_. False),
     IsMine = (\<lambda>_. True), CENT = 1, addr = (\<lambda>h. h)\<rparr>"

definition demo_tx :: "uint256 \<Rightarrow> int64 list \<Rightarrow> CWalletTx" where
  "demo_tx h vs = \<lparr>GetHash = h, vin = [\<lparr>prevout_hash = 1000 + h, prevout_n = 0\<rparr>],
     vout = map (\<lambda>v. \<lparr>nValue = v, scriptPubKey = []\<rparr>) vs,
     blockHash = 7, merkleBranch = [], merkleIndex = 0, vtxPrev = [], fFromMe = False,
     vfSpent = map (\<lambda>_. False) vs, nTimeReceived = 0\<rparr>"

definition demo_rand :: RandState where
  "demo_rand = \<lparr>draws = (\<lambda>i. i), pos = 0\<rparr>"

text \<open>The wallet of the example: three records with one coin each, of value 30, 50 and 120.\<close>

definition demo_wallet :: "(uint256 \<times> CWalletTx) list" where
  "demo_wallet = [(1, demo_tx 1 [30]), (2, demo_tx 2 [50]), (3, demo_tx 3 [120])]"


text \<open>
  A transaction of this wallet (hash 1) that is final and not yet in a block, whose one
  input spends output 0 of the transaction with hash 2; that transaction is in the
  supporting set and is in the chain at depth 1.
\<close>

definition bug_prev :: CMerkleTx where
  "bug_prev = \<lparr>GetHash = 2, vin = [], vout = [\<lparr>nValue = 5, scriptPubKey = []\<rparr>],
     blockHash = 7, merkleBranch = [], merkleIndex = 0\<rparr>"

definition bug_tx :: CWalletTx where
  "bug_tx = \<lparr>GetHash = 1, vin = [\<lparr>prevout_hash = 2, prevout_n = 0\<rparr>], vout = [],
     blockHash = 0, merkleBranch = [], merkleIndex = -1,
     vtxPrev = [bug_prev], fFromMe = True, vfSpent = [], nTimeReceived = 0\<rparr>"

definition bug_env :: env where
  "bug_env = \<lparr>isFinal = (\<lambda>_. True), getDepthInMainChain = (\<lambda>h. if h = 2 then 1 else 0),
     getBlocksToMaturity = (\<lambda>_. 0), IsCoinBase = (\<lambda>_. False),
     IsFromMe = (\<lambda>t. GetHash t = 1), IsMine = (\<lambda>_. True), CENT = 1, addr = (\<lambda>h. h)\<rparr>"

text \<open>
  A toy cipher: the derived key is the passphrase's length followed by the salt, a
  ciphertext is the key followed by the plaintext, and the key store accepts the master
  key \<open>[42]\<close>.  \<open>legacy_key\<close> holds the master key under a five-character
  passphrase, \<open>current_key\<close> under a three-character one.
\<close>

definition toy_crypto :: crypto where
  "toy_crypto = \<lparr>
     SetKeyFromPassphrase = (\<lambda>pass salt iters method. Some (length pass # salt)),
     Decrypt = (\<lambda>k ct. if take (length k) ct = k then Some (drop (length k) ct) else None),
     CCryptoKeyStore_Unlock =
       (\<lambda>ks mk. if mk = [42] then (True, ks\<lparr>vMasterKey := mk\<rparr>) else (False, ks))\<rparr>"

definition legacy_key :: CMasterKey where
  "legacy_key = \<lparr>vchCryptedKey = [5, 9, 42], vchSalt = [9], nDerivationMethod = 0,
     nDeriveIterations = 25000\<rparr>"

definition current_key :: CMasterKey where
  "current_key = \<lparr>vchCryptedKey = [3, 8, 42], vchSalt = [8], nDerivationMethod = 0,
     nDeriveIterations = 25000\<rparr>"

definition locked_store :: KeyStore where
  "locked_store = \<lparr>fUseCrypto = True, vMasterKey = []\<rparr>"





text \<open>
  A transaction of the wallet that spends the coin of value 30 of \<open>demo_wallet\<close>, not
  yet in a block; the clock shows 1000, every write succeeds and the default key is
  not replaced.
\<close>

definition spend_tx :: CWalletTx where
  "spend_tx = \<lparr>GetHash = 4, vin = [\<lparr>prevout_hash = 1, prevout_n = 0\<rparr>],
     vout = [\<lparr>nValue = 25, scriptPubKey = []\<rparr>],
     blockHash = 0, merkleBranch = [], merkleIndex = - 1, vtxPrev = [], fFromMe = True,
     vfSpent = [False], nTimeReceived = 0\<rparr>"

definition demo_io :: wallet_io where
  "demo_io = \<lparr>GetAdjustedTime = 1000, WriteToDisk = (\<lambda>_. True),
     ReplaceDefaultKey = (\<lambda>_. None)\<rparr>"

text \<open>The wallet after \<open>spend_tx\<close> has been added.\<close>

definition spent_wallet :: "(uint256 \<times> CWalletTx) list" where
  "spent_wallet = [(1, (demo_tx 1 [30])\<lparr>vfSpent := [True]\<rparr>), (2, demo_tx 2 [50]),
     (3, demo_tx 3 [120]), (4, spend_tx\<lparr>nTimeReceived := 1000\<rparr>)]"

section \<open>Evaluation on the concrete inputs\<close>

lemmas demo_simps = demo_env_def demo_tx_def demo_rand_def SelectCoinsMinConf_def
  random_shuffle_def shuffle_step_def GetRandInt_def IsConfirmed_def select_from_def
  IsSpent_def add64_def sub64_def wrap64_def INT64_MAX_def CMerkleTx.truncate_def

lemma demo_select_1_6:
  "SelectCoinsMinConf demo_env [(1, demo_tx 1 [100])] demo_rand 80 1 6
     = Some ((False, {}, 0), demo_rand)"
  by (simp add: demo_simps)

lemma demo_select_1_1:
  "SelectCoinsMinConf demo_env [(1, demo_tx 1 [100])] demo_rand 80 1 1
     = Some ((True, {(demo_tx 1 [100], 0)}, 100), demo_rand)"
  by (simp add: demo_simps)

section \<open>Wallet::IsConfirmed\<close>

lemma map_of_fill_mapPrev:
  "map_of (fill_mapPrev h ms m) k = (if k = h \<and> ms \<noteq> [] then Some (last ms) else map_of m k)"
  by (induction ms arbitrary: m) (auto simp: update_conv')

text \<open>
  What the walk computes for a record that does not spend itself: since every
  supporting transaction is filed under the record's own hash, the first input of the
  record is not found, and the walk succeeds only for a record without inputs.  In
  particular the call returns.
\<close>

lemma IsConfirmed_no_self_spend:
  assumes "no_self_spend tx"
  shows "IsConfirmed e tx =
           Some (isFinal e (CMerkleTx.truncate tx) \<and>
                 (1 \<le> getDepthInMainChain e (GetHash tx) \<or>
                  (IsFromMe e (CMerkleTx.truncate tx) \<and> vin tx = [])))"
proof (cases "isFinal e (CMerkleTx.truncate tx) \<and> \<not> 1 \<le> getDepthInMainChain e (GetHash tx)
              \<and> IsFromMe e (CMerkleTx.truncate tx)")
  case False
  then show ?thesis by (auto simp: IsConfirmed_def)
next
  case True
  let ?m = "fill_mapPrev (GetHash tx) (vtxPrev tx) []"
  have up: "GetHash (CMerkleTx.truncate tx) = GetHash tx" "vin (CMerkleTx.truncate tx) = vin tx"
    by (simp_all add: CMerkleTx.truncate_def)
  show ?thesis
  proof (cases "vin tx")
    case Nil
    have "IsConfirmed_walk e tx [] [CMerkleTx.truncate tx] 0
            = IsConfirmed_walk e tx ?m [CMerkleTx.truncate tx] 1"
      using True Nil by (subst IsConfirmed_walk.simps) (simp add: up)
    also have "\<dots> = Some True"
      by (subst IsConfirmed_walk.simps) simp
    finally show ?thesis using True Nil by (simp add: IsConfirmed_def)
  next
    case (Cons txin rest)
    from assms Cons have "prevout_hash txin \<noteq> GetHash tx"
      by (simp add: no_self_spend_def)
    then have "map_of ?m (prevout_hash txin) = None"
      by (simp add: map_of_fill_mapPrev)
    then have "push_inputs ?m (vin tx) [CMerkleTx.truncate tx] = None"
      using Cons by simp
    then have "IsConfirmed_walk e tx [] [CMerkleTx.truncate tx] 0 = Some False"
      using True by (subst IsConfirmed_walk.simps) (simp add: up)
    then show ?thesis using True Cons by (simp add: IsConfirmed_def)
  qed
qed

text \<open>
  Claim C2, evaluated where the source departs from it.  \<open>bug_tx\<close> is final, from this
  wallet and at depth 0; its only ancestor \<open>bug_prev\<close> is recorded in \<open>vtxPrev\<close> and
  is in the chain at depth 1, so the policy of the claim makes it confirmed.  The source
  answers \<open>false\<close>: \<open>mapPrev\<close> holds \<open>bug_prev\<close> under the hash of \<open>bug_tx\<close>, and the
  lookup of the input's hash 2 fails.
\<close>

theorem IsConfirmed_supporting_tx_not_found:
  "IsConfirmed bug_env bug_tx = Some False"
  by (simp add: IsConfirmed_def IsConfirmed_walk.simps bug_env_def bug_tx_def bug_prev_def
      CMerkleTx.truncate_def)

section \<open>Wallet::Unlock\<close>

text \<open>
  Whatever the later records are, a first record whose key derivation or decryption
  fails ends the call with \<open>false\<close> and the key store unchanged.
\<close>

lemma Unlock_first_record_fails:
  assumes "IsLocked ks"
    and "SetKeyFromPassphrase c pass (vchSalt k) (nDeriveIterations k) (nDerivationMethod k) = None
         \<or> (\<exists>crypter.
               SetKeyFromPassphrase c pass (vchSalt k) (nDeriveIterations k) (nDerivationMethod k)
                 = Some crypter
               \<and> Decrypt c crypter (vchCryptedKey k) = None)"
  shows "Unlock c ((i, k) # rest) ks pass = (False, ks)"
  using assms by (auto simp: Unlock_def)

text \<open>
  Claim C4, evaluated where the source departs from it.  The passphrase \<open>''abc''\<close>
  opens \<open>current_key\<close>: with that record alone the wallet unlocks.  With the record
  \<open>legacy_key\<close> stored before it, decryption of the first record fails and the call
  returns \<open>false\<close> without trying the second.
\<close>

theorem Unlock_stops_at_failed_record:
  "Unlock toy_crypto [(1, legacy_key), (2, current_key)] locked_store ''abc''
     = (False, locked_store)
   \<and> Unlock toy_crypto [(2, current_key)] locked_store ''abc''
     = (True, locked_store\<lparr>vMasterKey := [42]\<rparr>)"
  by (simp add: Unlock_def IsLocked_def toy_crypto_def current_key_def legacy_key_def
      locked_store_def)

section \<open>Wallet::SelectCoinsMinConf\<close>

subsection \<open>64-bit arithmetic without overflow\<close>

lemma wrap64_id: "INT64_MIN \<le> x \<Longrightarrow> x \<le> INT64_MAX \<Longrightarrow> wrap64 x = x"
  by (simp add: wrap64_def INT64_MIN_def INT64_MAX_def)

lemma add64_id: "INT64_MIN \<le> a + b \<Longrightarrow> a + b \<le> INT64_MAX \<Longrightarrow> add64 a b = a + b"
  by (simp add: add64_def wrap64_id)


lemma sum_fst_nonneg:
  fixes cs :: "(int \<times> 'b) list"
  shows "\<forall>c\<in>set cs. 0 \<le> fst c \<Longrightarrow> 0 \<le> sum_list (map fst cs)"
  by (induction cs) auto




lemma sum_fst_mset:
  fixes xs ys :: "(int \<times> 'b) list"
  shows "mset xs = mset ys \<Longrightarrow> sum_list (map fst xs) = sum_list (map fst ys)"
  by (metis mset_map sum_mset_sum_list)

subsection \<open>The shuffle is a permutation\<close>

lemma shuffle_step_mset:
  assumes "i < length (fst p)"
  shows "mset (fst (shuffle_step i p)) = mset (fst p)
         \<and> length (fst (shuffle_step i p)) = length (fst p)"
proof -
  obtain xs rs where p: "p = (xs, rs)" by (cases p)
  define j where "j = draws rs (pos rs) mod (i + 1)"
  have "j < i + 1" unfolding j_def by (rule mod_less_divisor) simp
  with assms p have j: "j < length xs" and i: "i < length xs" by simp_all
  have "mset (xs[i := xs ! j, j := xs ! i]) = mset xs"
    using mset_swap [OF j i] .
  then show ?thesis
    by (simp add: p shuffle_step_def GetRandInt_def j_def)
qed

lemma fold_shuffle_mset:
  "\<forall>i\<in>set is. i < length (fst p) \<Longrightarrow>
     mset (fst (fold shuffle_step is p)) = mset (fst p) \<and> length (fst (fold shuffle_step is p)) = length (fst p)"
proof (induction "is" arbitrary: p)
  case Nil
  then show ?case by simp
next
  case (Cons i "is")
  from Cons.prems have i: "i < length (fst p)" by simp
  note st = shuffle_step_mset [OF i]
  from Cons.prems st have "\<forall>j\<in>set is. j < length (fst (shuffle_step i p))" by simp
  from Cons.IH [OF this] st show ?case by simp
qed

lemma random_shuffle_mset: "mset (fst (random_shuffle xs rs)) = mset xs"
  using fold_shuffle_mset [of "[1..<length xs]" "(xs, rs)"]
  by (simp add: random_shuffle_def)

subsection \<open>The scan classifies the candidates\<close>

lemma scan_vout_classify:
  "scan_vout e T pcoin i outs acc = classify T (CENT e) (vout_candidates e pcoin i outs) acc"
  by (induction outs arbitrary: i acc) auto

lemma classify_append:
  "classify T C (xs @ ys) acc =
     (case classify T C xs acc of Inl h \<Rightarrow> Inl h | Inr a \<Rightarrow> classify T C ys a)"
  by (induction xs arbitrary: acc) auto

lemma scan_coins_classify:
  "scan_coins e T m t vCoins acc = Some r \<Longrightarrow>
     r = classify T (CENT e) (candidates e m t vCoins) acc"
proof (induction vCoins arbitrary: acc)
  case Nil
  then show ?case by (simp add: candidates_def)
next
  case (Cons pcoin rest)
  have cands: "candidates e m t (pcoin # rest) =
      (if tx_eligible e m t pcoin then vout_candidates e pcoin 0 (vout pcoin) else [])
      @ candidates e m t rest"
    by (simp add: candidates_def)
  show ?case
  proof (cases "tx_eligible e m t pcoin")
    case False
    with Cons.prems have "scan_coins e T m t rest acc = Some r"
      by (auto simp: tx_eligible_def split: option.splits if_splits)
    from Cons.IH [OF this] False show ?thesis by (simp add: cands)
  next
    case True
    show ?thesis
    proof (cases "classify T (CENT e) (vout_candidates e pcoin 0 (vout pcoin)) acc")
      case (Inl h)
      with True Cons.prems show ?thesis
        by (auto simp: tx_eligible_def cands classify_append scan_vout_classify)
    next
      case (Inr a)
      with True Cons.prems have "scan_coins e T m t rest a = Some r"
        by (auto simp: tx_eligible_def scan_vout_classify)
      from Cons.IH [OF this] True Inr show ?thesis
        by (simp add: cands classify_append)
    qed
  qed
qed

lemma scan_coins_total:
  "\<forall>pcoin\<in>set vCoins. IsConfirmed e pcoin \<noteq> None \<Longrightarrow>
     scan_coins e T m t vCoins acc \<noteq> None"
proof (induction vCoins arbitrary: acc)
  case Nil
  then show ?case by simp
next
  case (Cons pcoin rest)
  then show ?case
    by (auto split: option.splits sum.splits)
qed

lemma classify_exact:
  "\<exists>c\<in>set cs. fst c = T \<Longrightarrow> \<exists>c\<in>set cs. fst c = T \<and> classify T C cs acc = Inl c"
  by (induction cs arbitrary: acc) auto

lemma classify_Inl:
  "classify T C cs acc = Inl c \<Longrightarrow> c \<in> set cs \<and> fst c = T"
  by (induction cs arbitrary: acc) (auto split: if_splits)

lemma classify_Inr_vValue:
  "classify T C cs acc = Inr a \<Longrightarrow>
     vValue a = vValue acc @ filter (\<lambda>c. fst c < add64 T C) cs"
  by (induction cs arbitrary: acc) (auto split: if_splits)

lemma classify_Inr_nTotalLower:
  "classify T C cs acc = Inr a \<Longrightarrow>
     nTotalLower a
       = fold (\<lambda>c t. add64 t (fst c)) (filter (\<lambda>c. fst c < add64 T C) cs) (nTotalLower acc)"
  by (induction cs arbitrary: acc) (auto split: if_splits)

lemma classify_Inr_larger:
  "classify T C cs acc = Inr a \<Longrightarrow>
   (\<And>c. snd (coinLowestLarger acc) = Some c \<Longrightarrow> Q (fst (coinLowestLarger acc), c)) \<Longrightarrow>
   (\<And>c. c \<in> set cs \<Longrightarrow> \<not> fst c < add64 T C \<Longrightarrow> fst c \<noteq> T \<Longrightarrow> Q c) \<Longrightarrow>
   snd (coinLowestLarger a) = Some c' \<Longrightarrow> Q (fst (coinLowestLarger a), c')"
proof (induction cs arbitrary: acc)
  case Nil
  then show ?case by simp
next
  case (Cons c cs)
  show ?case
  proof (cases "fst c < add64 T C")
    case True
    with Cons.prems(1) have neq: "fst c \<noteq> T"
      and cl: "classify T C cs (acc\<lparr>vValue := vValue acc @ [c],
                  nTotalLower := add64 (nTotalLower acc) (fst c)\<rparr>) = Inr a"
      by (auto split: if_splits)
    show ?thesis
      by (rule Cons.IH [OF cl _ _ Cons.prems(4)]) (use Cons.prems(2,3) in auto)
  next
    case False
    note notlow = this
    from Cons.prems(1) have neq: "fst c \<noteq> T" by (auto split: if_splits)
    show ?thesis
    proof (cases "fst c < fst (coinLowestLarger acc)")
      case True
      with notlow neq Cons.prems(1)
      have cl: "classify T C cs (acc\<lparr>coinLowestLarger := (fst c, Some (snd c))\<rparr>) = Inr a"
        by simp
      show ?thesis
        by (rule Cons.IH [OF cl _ _ Cons.prems(4)]) (use Cons.prems(3) notlow neq in auto)
    next
      case False
      with notlow neq Cons.prems(1) have cl: "classify T C cs acc = Inr a" by simp
      show ?thesis
        by (rule Cons.IH [OF cl _ _ Cons.prems(4)]) (use Cons.prems(2,3) in auto)
    qed
  qed
qed

subsection \<open>The candidates of a wallet\<close>

text \<open>
  \<open>set_candidates\<close> says what a candidate is: an unspent owned output of positive
  value of an eligible record, with its value.
\<close>

lemma set_vout_candidates:
  "set (vout_candidates e p i outs) =
     {(nValue (outs ! k), (p, i + k)) | k.
        k < length outs \<and> \<not> IsSpent p (i + k) \<and> IsMine e (outs ! k) \<and> 0 < nValue (outs ! k)}"
proof (induction outs arbitrary: i)
  case Nil
  then show ?case by simp
next
  case (Cons txout rest)
  let ?R = "\<lambda>j outs k. k < length outs \<and> \<not> IsSpent p (j + k) \<and> IsMine e (outs ! k) \<and> 0 < nValue (outs ! k)"
  have split: "{(nValue ((txout # rest) ! k), (p, i + k)) | k. ?R i (txout # rest) k}
      = (if ?R i (txout # rest) 0 then {(nValue txout, (p, i))} else {})
        \<union> {(nValue (rest ! k), (p, Suc i + k)) | k. ?R (Suc i) rest k}"
    (is "?A = ?B")
  proof (rule set_eqI)
    fix x
    show "x \<in> ?A \<longleftrightarrow> x \<in> ?B"
    proof
      assume "x \<in> ?A"
      then obtain k where k: "x = (nValue ((txout # rest) ! k), (p, i + k))" "?R i (txout # rest) k"
        by blast
      show "x \<in> ?B"
      proof (cases k)
        case 0
        with k show ?thesis by auto
      next
        case (Suc k')
        with k have "x = (nValue (rest ! k'), (p, Suc i + k'))" "?R (Suc i) rest k'"
          by auto
        then show ?thesis by blast
      qed
    next
      assume "x \<in> ?B"
      then consider "?R i (txout # rest) 0" "x = (nValue txout, (p, i))"
        | k' where "x = (nValue (rest ! k'), (p, Suc i + k'))" "?R (Suc i) rest k'"
        by (auto split: if_splits)
      then show "x \<in> ?A"
      proof cases
        case 1
        then have "x = (nValue ((txout # rest) ! 0), (p, i + 0))" by simp
        with 1(1) show ?thesis by blast
      next
        case 2
        then have "x = (nValue ((txout # rest) ! Suc k'), (p, i + Suc k'))"
          "?R i (txout # rest) (Suc k')" by auto
        then show ?thesis by blast
      qed
    qed
  qed
  show ?case
    unfolding split using Cons.IH [of "Suc i"] by auto
qed

lemma vout_candidates_indices:
  "sorted_wrt (<) (map (snd \<circ> snd) (vout_candidates e p i outs))
   \<and> (\<forall>c\<in>set (vout_candidates e p i outs). fst (snd c) = p \<and> i \<le> snd (snd c))"
proof (induction outs arbitrary: i)
  case Nil
  then show ?case by simp
next
  case (Cons txout rest)
  from Cons.IH [of "i + 1"] show ?case
    by (auto simp: sorted_wrt_append)
qed

lemma distinct_vout_candidates:
  "distinct (map snd (vout_candidates e p i outs))"
proof -
  have "distinct (map (snd \<circ> snd) (vout_candidates e p i outs))"
    using vout_candidates_indices [of e p i outs]
    by (simp add: strict_sorted_iff)
  then have "distinct (map snd (map snd (vout_candidates e p i outs)))"
    by simp
  then show ?thesis
    using distinct_map [of snd "map snd (vout_candidates e p i outs)"] by blast
qed

lemma set_candidates:
  "set (candidates e m t vCoins) =
     {(coin_value (p, i), (p, i)) | p i.
        p \<in> set vCoins \<and> tx_eligible e m t p \<and> i < length (vout p) \<and>
        \<not> IsSpent p i \<and> IsMine e (vout p ! i) \<and> 0 < nValue (vout p ! i)}"
  by (auto simp: candidates_def set_vout_candidates coin_value_def)

lemma candidates_positive:
  "c \<in> set (candidates e m t vCoins) \<Longrightarrow> 0 < fst c \<and> fst c = coin_value (snd c)"
  unfolding set_candidates by (auto simp: coin_value_def)

lemma distinct_candidates:
  "distinct vCoins \<Longrightarrow> distinct (map snd (candidates e m t vCoins))"
proof (induction vCoins)
  case Nil
  then show ?case by (simp add: candidates_def)
next
  case (Cons p rest)
  have cands: "candidates e m t (p # rest) =
      (if tx_eligible e m t p then vout_candidates e p 0 (vout p) else [])
      @ candidates e m t rest"
    by (simp add: candidates_def)
  from Cons have IH: "distinct (map snd (candidates e m t rest))" and p: "p \<notin> set rest"
    by simp_all
  have disj: "snd ` set (vout_candidates e p 0 (vout p)) \<inter> snd ` set (candidates e m t rest) = {}"
    using p by (auto simp: set_candidates set_vout_candidates)
  show ?case
    using IH disj by (simp add: cands distinct_vout_candidates)
qed

lemma mset_candidates:
  "mset xs = mset ys \<Longrightarrow> mset (candidates e m t xs) = mset (candidates e m t ys)"
proof -
  assume eq: "mset xs = mset ys"
  have "\<And>zs. mset (candidates e m t zs) =
          (\<Sum>p\<in>#mset zs. mset (if tx_eligible e m t p then vout_candidates e p 0 (vout p) else []))"
    by (induct_tac zs) (simp_all add: candidates_def)
  with eq show ?thesis by simp
qed


lemma wallet_keys_ok_distinct:
  assumes "wallet_keys_ok mapWallet"
  shows "distinct (map snd mapWallet)"
proof -
  from assms have "map fst mapWallet = map (GetHash \<circ> snd) mapWallet"
    by (auto simp: wallet_keys_ok_def list_all_iff)
  with assms have "distinct (map GetHash (map snd mapWallet))"
    by (simp add: wallet_keys_ok_def)
  then show ?thesis
    using distinct_map [of GetHash "map snd mapWallet"] by blast
qed

subsection \<open>The call returns, and its result is a function of the classification\<close>

lemma wallet_IsConfirmed_returns:
  assumes "wallet_no_self_spend mapWallet"
    and "mset vCoins = mset (map snd mapWallet)"
  shows "\<forall>pcoin\<in>set vCoins. IsConfirmed e pcoin \<noteq> None"
proof
  fix pcoin assume "pcoin \<in> set vCoins"
  with assms(2) have "pcoin \<in> set (map snd mapWallet)"
    by (metis set_mset_mset)
  with assms(1) have "no_self_spend pcoin"
    by (auto simp: wallet_no_self_spend_def list_all_iff)
  then show "IsConfirmed e pcoin \<noteq> None"
    by (simp add: IsConfirmed_no_self_spend)
qed

lemma SelectCoinsMinConf_scan:
  assumes "wallet_no_self_spend mapWallet"
  obtains vCoins rs1 where
    "random_shuffle (map snd mapWallet) rs = (vCoins, rs1)"
    "mset vCoins = mset (map snd mapWallet)"
    "mset (candidates e m t vCoins) = mset (candidates e m t (map snd mapWallet))"
    "scan_coins e T m t vCoins acc = Some (classify T (CENT e) (candidates e m t vCoins) acc)"
proof -
  obtain vCoins rs1 where sh: "random_shuffle (map snd mapWallet) rs = (vCoins, rs1)"
    by (cases "random_shuffle (map snd mapWallet) rs")
  have ms: "mset vCoins = mset (map snd mapWallet)"
    using random_shuffle_mset [of "map snd mapWallet" rs] sh by simp
  have "scan_coins e T m t vCoins acc \<noteq> None"
    by (rule scan_coins_total) (rule wallet_IsConfirmed_returns [OF assms ms])
  then obtain r where r: "scan_coins e T m t vCoins acc = Some r" by blast
  from scan_coins_classify [OF r] r
  have "scan_coins e T m t vCoins acc = Some (classify T (CENT e) (candidates e m t vCoins) acc)"
    by simp
  with sh ms mset_candidates [OF ms] that show thesis by blast
qed

lemma SelectCoinsMinConf_shape:
  assumes "SelectCoinsMinConf e mapWallet rs T m t = Some (r, rs')"
  obtains vCoins hit where
      "mset vCoins = mset (map snd mapWallet)"
      "classify T (CENT e) (candidates e m t vCoins) scan_start = Inl hit"
      "r = (True, {snd hit}, add64 0 (fst hit))"
    | vCoins rs1 a where
      "mset vCoins = mset (map snd mapWallet)"
      "classify T (CENT e) (candidates e m t vCoins) scan_start = Inr a"
      "select_from e T a rs1 = (r, rs')"
proof -
  obtain vCoins rs1 where sh: "random_shuffle (map snd mapWallet) rs = (vCoins, rs1)"
    by (cases "random_shuffle (map snd mapWallet) rs")
  have ms: "mset vCoins = mset (map snd mapWallet)"
    using random_shuffle_mset [of "map snd mapWallet" rs] sh by simp
  from assms sh obtain x where sc: "scan_coins e T m t vCoins scan_start = Some x"
    by (auto simp: SelectCoinsMinConf_def scan_start_def split: option.splits)
  note cl = scan_coins_classify [OF sc]
  show thesis
  proof (cases x)
    case (Inl hit)
    with assms sh sc have r: "r = (True, {snd hit}, add64 0 (fst hit))"
      by (simp add: SelectCoinsMinConf_def scan_start_def)
    from cl Inl have c1: "classify T (CENT e) (candidates e m t vCoins) scan_start = Inl hit"
      by simp
    show thesis by (rule that(1) [OF ms c1 r])
  next
    case (Inr a)
    with assms sh sc have r: "select_from e T a rs1 = (r, rs')"
      by (simp add: SelectCoinsMinConf_def scan_start_def)
    from cl Inr have c1: "classify T (CENT e) (candidates e m t vCoins) scan_start = Inr a"
      by simp
    show thesis by (rule that(2) [OF ms c1 r])
  qed
qed

lemma SelectCoinsMinConf_returns:
  assumes "wallet_no_self_spend mapWallet"
  shows "SelectCoinsMinConf e mapWallet rs T m t \<noteq> None"
proof -
  obtain vCoins rs1 where
    sh: "random_shuffle (map snd mapWallet) rs = (vCoins, rs1)" and
    sc: "scan_coins e T m t vCoins scan_start
           = Some (classify T (CENT e) (candidates e m t vCoins) scan_start)"
    by (rule SelectCoinsMinConf_scan [OF assms])
  then show ?thesis
    by (cases "classify T (CENT e) (candidates e m t vCoins) scan_start")
       (simp_all add: SelectCoinsMinConf_def scan_start_def)
qed

subsection \<open>Sums of marked entries\<close>

lemma sel_sum_chosen: "sel_sum bs cs = sum_list (map fst (chosen bs cs))"
  by (induction bs cs rule: sel_sum.induct) auto

lemma set_chosen: "set (chosen bs cs) \<subseteq> set cs"
  by (induction bs cs rule: chosen.induct) auto

lemma distinct_chosen: "distinct (map snd cs) \<Longrightarrow> distinct (map snd (chosen bs cs))"
proof (induction bs cs rule: chosen.induct)
  case (1 b bs c cs)
  then show ?case using set_chosen [of bs cs] by auto
qed simp_all

lemma sel_sum_replicate_False: "sel_sum (replicate n False) cs = 0"
  by (induction n arbitrary: cs) (case_tac cs; simp)+

lemma sel_sum_replicate_True: "sel_sum (replicate (length cs) True) cs = sum_list (map fst cs)"
  by (induction cs) auto

lemma sel_sum_update:
  "i < length bs \<Longrightarrow> length bs = length cs \<Longrightarrow>
     sel_sum (bs[i := b]) cs
       = sel_sum bs cs + (if b then fst (cs ! i) else 0) - (if bs ! i then fst (cs ! i) else 0)"
proof (induction bs cs arbitrary: i rule: sel_sum.induct)
  case (1 b' bs c cs)
  then show ?case by (cases i) auto
qed simp_all



lemma sum_coin_values:
  assumes "distinct (map snd xs)" and "\<forall>c\<in>set xs. fst c = coin_value (snd c)"
  shows "sum coin_value (snd ` set xs) = sum_list (map fst xs)"
proof -
  have "sum coin_value (set (map snd xs)) = sum_list (map coin_value (map snd xs))"
    using sum_list_distinct_conv_sum_set [OF assms(1), of coin_value] by simp
  also have "map coin_value (map snd xs) = map fst xs"
    using assms(2) by simp
  finally show ?thesis by simp
qed


lemma mset_sort_descending: "mset (sort_descending e xs) = mset xs"
  by (simp add: sort_descending_def)

subsection \<open>The best total of the trials stays above the target\<close>

lemma trial_step_lower_bound:
  "T \<le> nBest s \<Longrightarrow> T \<le> nBest (trial_step nPass T vals i s)"
  by (auto simp: trial_step_def Let_def split: prod.splits)

lemma fold_preserves:
  "(\<And>x s. P s \<Longrightarrow> P (f x s)) \<Longrightarrow> P s \<Longrightarrow> P (fold f xs s)"
  by (induction xs arbitrary: s) auto

lemma trial_passes_lower_bound:
  "T \<le> nBest s \<Longrightarrow> T \<le> nBest (trial_passes nPass T vals s)"
proof (induction nPass T vals s rule: trial_passes.induct)
  case (1 nPass T vals s)
  show ?case
  proof (cases "nPass < 2 \<and> \<not> fReachedTarget s")
    case False
    then show ?thesis using "1.prems" by (subst trial_passes.simps) auto
  next
    case True
    have "T \<le> nBest (fold (trial_step nPass T vals) [0..<length vals] s)"
      using "1.prems" by (intro fold_preserves [where P = "\<lambda>s. T \<le> nBest s"])
        (rule trial_step_lower_bound)
    then have "T \<le> nBest (trial_passes (nPass + 1) T vals
                 (fold (trial_step nPass T vals) [0..<length vals] s))"
      using True by (intro "1.IH") simp_all
    then show ?thesis using True by (subst trial_passes.simps) simp
  qed
qed

lemma trials_lower_bound:
  "T \<le> nBest s \<Longrightarrow> T \<le> nBest (trials nRep T vals s)"
proof (induction nRep T vals s rule: trials.induct)
  case (1 nRep T vals s)
  show ?case
  proof (cases "nRep < 1000 \<and> nBest s \<noteq> T")
    case False
    then show ?thesis using "1.prems" by (subst trials.simps) auto
  next
    case True
    let ?s0 = "s\<lparr>vfIncluded := replicate (length vals) False, nTotal := 0, fReachedTarget := False\<rparr>"
    have "T \<le> nBest (trial_passes 0 T vals ?s0)"
      using "1.prems" by (intro trial_passes_lower_bound) simp
    then have "T \<le> nBest (trials (nRep + 1) T vals (trial_passes 0 T vals ?s0))"
      using True by (intro "1.IH") simp_all
    then show ?thesis using True by (subst trials.simps) simp
  qed
qed

lemma trial_passes_Nil: "trial_passes nPass T [] s = s"
proof (induction nPass T "[] :: (int64 \<times> coin) list" s rule: trial_passes.induct)
  case (1 nPass T s)
  have "trial_passes nPass T [] s =
     (if nPass < 2 \<and> \<not> fReachedTarget s
      then trial_passes (nPass + 1) T [] (fold (trial_step nPass T []) [0..<length ([] :: (int64 \<times> coin) list)] s)
      else s)"
    by (rule trial_passes.simps)
  with "1.hyps" show ?case by (cases "nPass < 2 \<and> \<not> fReachedTarget s") simp_all
qed

lemma trials_unfold_Nil:
  "trials nRep T [] s =
     (if nRep < 1000 \<and> nBest s \<noteq> T
      then trials (nRep + 1) T [] (s\<lparr>vfIncluded := [], nTotal := 0, fReachedTarget := False\<rparr>)
      else s)"
proof -
  have "trials nRep T [] s =
     (if nRep < 1000 \<and> nBest s \<noteq> T
      then trials (nRep + 1) T []
             (trial_passes 0 T []
                (s\<lparr>vfIncluded := replicate (length ([] :: (int64 \<times> coin) list)) False,
                    nTotal := 0,
                    fReachedTarget := False\<rparr>))
      else s)"
    by (rule trials.simps)
  then show ?thesis
    unfolding trial_passes_Nil by simp
qed

lemma trials_Nil:
  "nBest (trials nRep T [] s) = nBest s \<and> vfBest (trials nRep T [] s) = vfBest s
   \<and> rnd (trials nRep T [] s) = rnd s"
proof (induction "1000 - nRep" arbitrary: nRep s)
  case 0
  then have "\<not> nRep < 1000" by simp
  then show ?case
    by (simp add: trials_unfold_Nil [of nRep T s])
next
  case (Suc k)
  let ?s0 = "s\<lparr>vfIncluded := [], nTotal := 0, fReachedTarget := False\<rparr>"
  from Suc.hyps(2) have k: "k = 1000 - (nRep + 1)" by simp
  from Suc.hyps(1) [OF k, of ?s0] show ?case
    by (simp add: trials_unfold_Nil [of nRep T s])
qed

subsection \<open>The result after the scan\<close>





section \<open>Wallet::SelectCoinsMinConf in 64-bit arithmetic\<close>

text \<open>
  What holds of the selection whether or not a sum of values wraps around: the total
  the call reports is the wrapped sum of the values of the coins it returns.
\<close>

subsection \<open>Wrapped sums\<close>

lemma wrap64_zero: "wrap64 0 = 0"
  by (simp add: wrap64_def)

lemma wrap64_add_left: "wrap64 (wrap64 a + b) = wrap64 (a + b)"
proof -
  have "wrap64 a + b + 9223372036854775808
      = (a + 9223372036854775808) mod 18446744073709551616 + b"
    by (simp add: wrap64_def)
  then have "(wrap64 a + b + 9223372036854775808) mod 18446744073709551616
      = ((a + 9223372036854775808) mod 18446744073709551616 + b) mod 18446744073709551616"
    by (rule arg_cong)
  also have "\<dots> = (a + 9223372036854775808 + b) mod 18446744073709551616"
    by (rule mod_add_left_eq)
  also have "a + 9223372036854775808 + b = a + b + 9223372036854775808"
    by simp
  finally have "(wrap64 a + b + 9223372036854775808) mod 18446744073709551616
      = (a + b + 9223372036854775808) mod 18446744073709551616" .
  then show ?thesis
    by (simp only: wrap64_def [of "wrap64 a + b"] wrap64_def [of "a + b"])
qed

lemma wrap64_diff_left: "wrap64 (wrap64 a - b) = wrap64 (a - b)"
proof -
  have "wrap64 a - b + 9223372036854775808
      = (a + 9223372036854775808) mod 18446744073709551616 - b"
    by (simp add: wrap64_def)
  then have "(wrap64 a - b + 9223372036854775808) mod 18446744073709551616
      = ((a + 9223372036854775808) mod 18446744073709551616 - b) mod 18446744073709551616"
    by (rule arg_cong)
  also have "\<dots> = (a + 9223372036854775808 - b) mod 18446744073709551616"
    by (rule mod_diff_left_eq)
  also have "a + 9223372036854775808 - b = a - b + 9223372036854775808"
    by simp
  finally have "(wrap64 a - b + 9223372036854775808) mod 18446744073709551616
      = (a - b + 9223372036854775808) mod 18446744073709551616" .
  then show ?thesis
    by (simp only: wrap64_def [of "wrap64 a - b"] wrap64_def [of "a - b"])
qed

lemma add64_wrap64: "add64 (wrap64 a) b = wrap64 (a + b)"
  by (simp add: add64_def wrap64_add_left)

lemma sub64_wrap64: "sub64 (wrap64 a) b = wrap64 (a - b)"
  by (simp add: sub64_def wrap64_diff_left)

lemma wrap64_le: "0 \<le> x \<Longrightarrow> wrap64 x \<le> x"
proof -
  assume "0 \<le> x"
  then have "(x + 9223372036854775808) mod 18446744073709551616 \<le> x + 9223372036854775808"
    by (intro zmod_le_nonneg_dividend) simp
  then show ?thesis by (simp add: wrap64_def)
qed

lemma fold_add64_wrapped:
  "fold (\<lambda>c t. add64 t (fst c)) cs (wrap64 x) = wrap64 (x + sum_list (map fst cs))"
  by (induction cs arbitrary: x) (simp_all add: add64_wrap64 add.assoc)

lemma insert_all_wrapped:
  "insert_all cs (S, wrap64 x) = (S \<union> snd ` set cs, wrap64 (x + sum_list (map fst cs)))"
  by (induction cs arbitrary: S x) (simp_all add: add64_wrap64 add.assoc)

lemma insert_best_wrapped:
  "insert_best bs cs (S, wrap64 x) = (S \<union> snd ` set (chosen bs cs), wrap64 (x + sel_sum bs cs))"
  by (induction bs cs arbitrary: S x rule: sel_sum.induct) (simp_all add: add64_wrap64 add.assoc)

subsection \<open>The trials keep their invariants\<close>

lemma trial_step_wrapped:
  assumes i: "i < length vals"
    and inc: "incl_wrapped vals s" and best: "best_wrapped vals s"
    and free: "nPass = 0 \<Longrightarrow> \<not> vfIncluded s ! i"
  shows "incl_wrapped vals (trial_step nPass T vals i s)
         \<and> best_wrapped vals (trial_step nPass T vals i s)
         \<and> (\<forall>j. j \<noteq> i \<longrightarrow> vfIncluded (trial_step nPass T vals i s) ! j = vfIncluded s ! j)"
proof -
  obtain fTake rs' where ft: "(if nPass = 0
             then (let (r, rs1) = rand (rnd s) in (r mod 2 \<noteq> 0, rs1))
             else (\<not> vfIncluded s ! i, rnd s)) = (fTake, rs')"
    by (metis surj_pair)
  show ?thesis
  proof (cases fTake)
    case False
    with ft have "trial_step nPass T vals i s = s\<lparr>rnd := rs'\<rparr>"
      by (simp add: trial_step_def)
    with inc best show ?thesis by (simp add: incl_wrapped_def best_wrapped_def)
  next
    case True
    have fr: "\<not> vfIncluded s ! i"
    proof (cases "nPass = 0")
      case True
      then show ?thesis by (rule free)
    next
      case False
      with ft \<open>fTake\<close> show ?thesis by simp
    qed
    from inc have len: "length (vfIncluded s) = length vals"
      and tot: "nTotal s = wrap64 (sel_sum (vfIncluded s) vals)"
      by (simp_all add: incl_wrapped_def)
    let ?n' = "add64 (nTotal s) (fst (vals ! i))"
    have upd: "sel_sum ((vfIncluded s)[i := True]) vals
        = sel_sum (vfIncluded s) vals + fst (vals ! i)"
      using sel_sum_update [of i "vfIncluded s" vals True] i len fr by simp
    have n': "?n' = wrap64 (sel_sum ((vfIncluded s)[i := True]) vals)"
      unfolding tot upd by (rule add64_wrap64)
    have undo: "sub64 ?n' (fst (vals ! i)) = nTotal s"
      unfolding tot by (simp add: add64_wrap64 sub64_wrap64)
    have same: "(vfIncluded s)[i := True, i := False] = vfIncluded s"
      using fr i len by (simp add: list_update_same_conv)
    show ?thesis
    proof (cases "T \<le> ?n'")
      case False
      with ft True have "trial_step nPass T vals i s
          = s\<lparr>rnd := rs', nTotal := ?n', vfIncluded := (vfIncluded s)[i := True]\<rparr>"
        by (simp add: trial_step_def Let_def)
      with n' len best show ?thesis
        by (simp add: incl_wrapped_def best_wrapped_def)
    next
      case reached: True
      with ft True have st: "trial_step nPass T vals i s
          = s\<lparr>rnd := rs', fReachedTarget := True,
               nBest := (if ?n' < nBest s then ?n' else nBest s),
               vfBest := (if ?n' < nBest s then (vfIncluded s)[i := True] else vfBest s),
               nTotal := sub64 ?n' (fst (vals ! i)),
               vfIncluded := (vfIncluded s)[i := True, i := False]\<rparr>"
        by (simp add: trial_step_def Let_def)
      show ?thesis
        unfolding st using n' undo same len best inc
        by (simp add: incl_wrapped_def best_wrapped_def)
    qed
  qed
qed

lemma trial_fold_wrapped:
  "i \<le> length vals \<Longrightarrow> incl_wrapped vals s \<Longrightarrow> best_wrapped vals s \<Longrightarrow>
         (nPass = 0 \<Longrightarrow> \<forall>j. i \<le> j \<and> j < length vals \<longrightarrow> \<not> vfIncluded s ! j) \<Longrightarrow>
         incl_wrapped vals (fold (trial_step nPass T vals) [i..<length vals] s)
         \<and> best_wrapped vals (fold (trial_step nPass T vals) [i..<length vals] s)"
proof (induction "length vals - i" arbitrary: i s)
  case 0
  then show ?case by simp
next
  case (Suc k)
  from Suc.hyps(2) have i: "i < length vals" by simp
  let ?s = "trial_step nPass T vals i s"
  have free: "nPass = 0 \<Longrightarrow> \<not> vfIncluded s ! i"
    using Suc.prems(4) i by simp
  from trial_step_wrapped [OF i Suc.prems(2,3) free, where T = T]
  have inc: "incl_wrapped vals ?s" and best: "best_wrapped vals ?s"
    and frame: "\<forall>j. j \<noteq> i \<longrightarrow> vfIncluded ?s ! j = vfIncluded s ! j"
    by simp_all
  have pos: "nPass = 0 \<Longrightarrow> \<forall>j. Suc i \<le> j \<and> j < length vals \<longrightarrow> \<not> vfIncluded ?s ! j"
    using Suc.prems(4) frame by simp
  have k: "k = length vals - Suc i" using Suc.hyps(2) by simp
  have "incl_wrapped vals (fold (trial_step nPass T vals) [Suc i..<length vals] ?s)
        \<and> best_wrapped vals (fold (trial_step nPass T vals) [Suc i..<length vals] ?s)"
    using i by (intro Suc.hyps(1) [OF k _ inc best pos]) simp_all
  then show ?case using i by (simp add: upt_conv_Cons)
qed

lemma trial_passes_wrapped:
  "incl_wrapped vals s \<Longrightarrow> best_wrapped vals s \<Longrightarrow>
         (nPass = 0 \<Longrightarrow> \<forall>j. j < length vals \<longrightarrow> \<not> vfIncluded s ! j) \<Longrightarrow>
         best_wrapped vals (trial_passes nPass T vals s)"
proof (induction nPass T vals s rule: trial_passes.induct)
  case (1 nPass T vals s)
  show ?case
  proof (cases "nPass < 2 \<and> \<not> fReachedTarget s")
    case False
    then show ?thesis using "1.prems"(2) by (subst trial_passes.simps) auto
  next
    case True
    let ?s = "fold (trial_step nPass T vals) [0..<length vals] s"
    have "incl_wrapped vals ?s \<and> best_wrapped vals ?s"
      using "1.prems" by (intro trial_fold_wrapped) simp_all
    then have "best_wrapped vals (trial_passes (nPass + 1) T vals ?s)"
      using True by (intro "1.IH") simp_all
    then show ?thesis using True by (subst trial_passes.simps) simp
  qed
qed

lemma trials_wrapped:
  "best_wrapped vals s \<Longrightarrow> best_wrapped vals (trials nRep T vals s)"
proof (induction nRep T vals s rule: trials.induct)
  case (1 nRep T vals s)
  show ?case
  proof (cases "nRep < 1000 \<and> nBest s \<noteq> T")
    case False
    then show ?thesis using "1.prems" by (subst trials.simps) auto
  next
    case True
    let ?s0 = "s\<lparr>vfIncluded := replicate (length vals) False, nTotal := 0, fReachedTarget := False\<rparr>"
    have "best_wrapped vals (trial_passes 0 T vals ?s0)"
      using "1.prems"
      by (intro trial_passes_wrapped)
         (simp_all add: incl_wrapped_def best_wrapped_def sel_sum_replicate_False wrap64_zero)
    then have "best_wrapped vals (trials (nRep + 1) T vals (trial_passes 0 T vals ?s0))"
      using True by (intro "1.IH") simp_all
    then show ?thesis using True by (subst trials.simps) simp
  qed
qed

subsection \<open>The result after the scan\<close>

lemma classify_Inr_larger_le:
  "classify T C cs acc = Inr a \<Longrightarrow> fst (coinLowestLarger a) \<le> fst (coinLowestLarger acc)"
proof (induction cs arbitrary: acc)
  case Nil
  then show ?case by simp
next
  case (Cons c cs)
  from Cons.prems consider
      (low) "classify T C cs (acc\<lparr>vValue := vValue acc @ [c],
                nTotalLower := add64 (nTotalLower acc) (fst c)\<rparr>) = Inr a"
    | (larger) "fst c < fst (coinLowestLarger acc)"
        "classify T C cs (acc\<lparr>coinLowestLarger := (fst c, Some (snd c))\<rparr>) = Inr a"
    | (skip) "classify T C cs acc = Inr a"
    by (auto split: if_splits)
  then show ?case
  proof cases
    case low
    from Cons.IH [OF low] show ?thesis by simp
  next
    case larger
    from Cons.IH [OF larger(2)] larger(1) show ?thesis by simp
  next
    case skip
    from Cons.IH [OF skip] show ?thesis .
  qed
qed

lemma classify_scan_wrapped:
  assumes cl: "classify T C cands scan_start = Inr a"
  shows "vValue a = filter (\<lambda>c. fst c < add64 T C) cands"
    and "nTotalLower a = wrap64 (sum_list (map fst (vValue a)))"
    and "fst (coinLowestLarger a) \<le> INT64_MAX"
    and "snd (coinLowestLarger a) = Some c \<Longrightarrow>
           (fst (coinLowestLarger a), c) \<in> set cands \<and> \<not> fst (coinLowestLarger a) < add64 T C"
proof -
  show vv: "vValue a = filter (\<lambda>c. fst c < add64 T C) cands"
    using classify_Inr_vValue [OF cl] by (simp add: scan_start_def)
  have "nTotalLower a = fold (\<lambda>c t. add64 t (fst c)) (vValue a) (wrap64 0)"
    using classify_Inr_nTotalLower [OF cl] by (simp add: scan_start_def vv wrap64_zero)
  then show "nTotalLower a = wrap64 (sum_list (map fst (vValue a)))"
    by (simp add: fold_add64_wrapped)
  show "fst (coinLowestLarger a) \<le> INT64_MAX"
    using classify_Inr_larger_le [OF cl] by (simp add: scan_start_def)
  assume "snd (coinLowestLarger a) = Some c"
  from classify_Inr_larger [OF cl, where Q = "\<lambda>x. x \<in> set cands \<and> \<not> fst x < add64 T C", OF _ _ this]
  show "(fst (coinLowestLarger a), c) \<in> set cands \<and> \<not> fst (coinLowestLarger a) < add64 T C"
    by (simp add: scan_start_def)
qed

lemma wrap64_lower: "INT64_MIN \<le> wrap64 x"
proof -
  have "0 \<le> (x + 9223372036854775808) mod 18446744073709551616" by simp
  then show ?thesis by (simp add: wrap64_def INT64_MIN_def)
qed

lemma select_from_sum:
  assumes larger: "\<And>c. snd (coinLowestLarger a) = Some c \<Longrightarrow>
                   0 \<le> fst (coinLowestLarger a) \<and> fst (coinLowestLarger a) \<le> INT64_MAX"
    and res: "select_from e T a rs = ((ret, S, v), rs')"
  shows "\<exists>xs. set xs \<subseteq> set (vValue a)
                 \<union> {(fst (coinLowestLarger a), c) | c. snd (coinLowestLarger a) = Some c}
            \<and> (distinct (map snd (vValue a)) \<longrightarrow> distinct (map snd xs))
            \<and> S = snd ` set xs \<and> v = wrap64 (sum_list (map fst xs))"
proof -
  let ?P = "\<lambda>S v. \<exists>xs. set xs \<subseteq> set (vValue a)
                 \<union> {(fst (coinLowestLarger a), c) | c. snd (coinLowestLarger a) = Some c}
            \<and> (distinct (map snd (vValue a)) \<longrightarrow> distinct (map snd xs))
            \<and> S = snd ` set xs \<and> v = wrap64 (sum_list (map fst xs))"
  have none: "?P {} 0"
    by (intro exI [of _ "[]"]) (simp add: wrap64_zero)
  have single: "?P {c} (add64 0 (fst (coinLowestLarger a)))"
    if c: "snd (coinLowestLarger a) = Some c" for c
  proof -
    from larger [OF c]
    have "add64 0 (fst (coinLowestLarger a)) = wrap64 (fst (coinLowestLarger a))"
      by (simp add: add64_def)
    with c show ?thesis
      by (intro exI [of _ "[(fst (coinLowestLarger a), c)]"]) simp
  qed
  have all: "?P (fst (insert_all (vValue a) ({}, 0))) (snd (insert_all (vValue a) ({}, 0)))"
    using insert_all_wrapped [of "vValue a" "{}" 0]
    by (intro exI [of _ "vValue a"]) (auto simp: wrap64_zero)
  have best: "?P (fst (insert_best bs (sort_descending e (vValue a)) ({}, 0)))
                 (snd (insert_best bs (sort_descending e (vValue a)) ({}, 0)))" for bs
  proof -
    let ?vs = "sort_descending e (vValue a)"
    have ms: "mset ?vs = mset (vValue a)" by (rule mset_sort_descending)
    have sub: "set (chosen bs ?vs) \<subseteq> set (vValue a)"
      using set_chosen [of bs ?vs] ms by (metis set_mset_mset)
    have dist: "distinct (map snd (vValue a)) \<longrightarrow> distinct (map snd (chosen bs ?vs))"
    proof
      assume "distinct (map snd (vValue a))"
      then have "distinct (map snd ?vs)"
        using ms by (metis mset_eq_imp_distinct_iff mset_map)
      then show "distinct (map snd (chosen bs ?vs))" by (rule distinct_chosen)
    qed
    show ?thesis
      using insert_best_wrapped [of bs ?vs "{}" 0] sub dist
      by (intro exI [of _ "chosen bs ?vs"]) (auto simp: wrap64_zero sel_sum_chosen)
  qed
  show ?thesis
  proof (cases "nTotalLower a = T \<or> nTotalLower a = add64 T (CENT e)")
    case True
    with res have "insert_all (vValue a) ({}, 0) = (S, v)"
      by (simp add: select_from_def)
    with all show ?thesis by simp
  next
    case c1: False
    show ?thesis
    proof (cases "nTotalLower a
                    < add64 T (if snd (coinLowestLarger a) \<noteq> None then CENT e else 0)")
      case True
      with c1 res consider "S = {}" "v = 0"
        | c where "snd (coinLowestLarger a) = Some c" "S = {c}"
            "v = add64 0 (fst (coinLowestLarger a))"
        by (auto simp: select_from_def split: option.splits)
      then show ?thesis
      proof cases
        case 1
        with none show ?thesis by simp
      next
        case 2
        with single [OF 2(1)] show ?thesis by simp
      qed
    next
      case c2: False
      define T' where "T' = (if add64 T (CENT e) \<le> nTotalLower a then add64 T (CENT e) else T)"
      define vs where "vs = sort_descending e (vValue a)"
      define s where "s = trials 0 T' vs
                   \<lparr>rnd = rs, nTotal = 0, vfIncluded = [], fReachedTarget = False,
                    nBest = nTotalLower a, vfBest = replicate (length vs) True\<rparr>"
      have "select_from e T a rs =
         (case snd (coinLowestLarger a) of
            Some c \<Rightarrow>
              (if sub64 (fst (coinLowestLarger a)) T' \<le> sub64 (nBest s) T'
               then ((True, {c}, add64 0 (fst (coinLowestLarger a))), rnd s)
               else ((True, insert_best (vfBest s) vs ({}, 0)), rnd s))
          | None \<Rightarrow> ((True, insert_best (vfBest s) vs ({}, 0)), rnd s))"
        unfolding select_from_def Let_def T'_def vs_def s_def using c1 c2 by simp
      with res have
        "(case snd (coinLowestLarger a) of
            Some c \<Rightarrow>
              (if sub64 (fst (coinLowestLarger a)) T' \<le> sub64 (nBest s) T'
               then ((True, {c}, add64 0 (fst (coinLowestLarger a))), rnd s)
               else ((True, insert_best (vfBest s) vs ({}, 0)), rnd s))
          | None \<Rightarrow> ((True, insert_best (vfBest s) vs ({}, 0)), rnd s))
         = ((ret, S, v), rs')"
        by simp
      then consider c where "snd (coinLowestLarger a) = Some c" "S = {c}"
            "v = add64 0 (fst (coinLowestLarger a))"
        | "insert_best (vfBest s) vs ({}, 0) = (S, v)"
        by (auto split: option.splits if_splits)
      then show ?thesis
      proof cases
        case 1
        with single [OF 1(1)] show ?thesis by simp
      next
        case 2
        with best [of "vfBest s"] show ?thesis by (simp add: vs_def)
      qed
    qed
  qed
qed


lemma select_from_reaches:
  assumes tot: "nTotalLower a = wrap64 (sum_list (map fst (vValue a)))"
    and larger: "\<And>c. snd (coinLowestLarger a) = Some c \<Longrightarrow>
                   \<not> fst (coinLowestLarger a) < add64 T (CENT e)
                   \<and> 0 \<le> fst (coinLowestLarger a) \<and> fst (coinLowestLarger a) \<le> INT64_MAX"
    and cent: "0 \<le> CENT e" and T: "INT64_MIN \<le> T" "T + CENT e \<le> INT64_MAX"
    and res: "select_from e T a rs = ((True, S, v), rs')"
  shows "T \<le> v"
proof -
  have TC: "add64 T (CENT e) = T + CENT e"
    using cent T by (intro add64_id) simp_all
  have T0: "add64 T 0 = T"
    using cent T by (intro add64_id [of T 0, simplified]) simp_all
  have single: "T \<le> add64 0 (fst (coinLowestLarger a))"
    if c: "snd (coinLowestLarger a) = Some c" for c
    using larger [OF c] TC cent by (simp add: add64_def wrap64_id INT64_MIN_def)
  show ?thesis
  proof (cases "nTotalLower a = T \<or> nTotalLower a = add64 T (CENT e)")
    case True
    with res have "insert_all (vValue a) ({}, wrap64 0) = (S, v)"
      by (simp add: select_from_def wrap64_zero)
    then have "v = nTotalLower a"
      by (simp add: insert_all_wrapped tot)
    with True TC cent show ?thesis by auto
  next
    case c1: False
    show ?thesis
    proof (cases "nTotalLower a
                    < add64 T (if snd (coinLowestLarger a) \<noteq> None then CENT e else 0)")
      case True
      with c1 res obtain c where "snd (coinLowestLarger a) = Some c"
        "v = add64 0 (fst (coinLowestLarger a))"
        by (auto simp: select_from_def split: option.splits)
      with single show ?thesis by simp
    next
      case c2: False
      define T' where "T' = (if add64 T (CENT e) \<le> nTotalLower a then add64 T (CENT e) else T)"
      define vs where "vs = sort_descending e (vValue a)"
      define s0 where "s0 = \<lparr>rnd = rs, nTotal = 0, vfIncluded = [], fReachedTarget = False,
                    nBest = nTotalLower a, vfBest = replicate (length vs) True\<rparr>"
      define s where "s = trials 0 T' vs s0"
      have sm: "sum_list (map fst vs) = sum_list (map fst (vValue a))"
        unfolding vs_def by (rule sum_fst_mset) (rule mset_sort_descending)
      have T'le: "T' \<le> nTotalLower a"
        using c2 TC T0 cent unfolding T'_def by (auto split: if_splits)
      have TT': "T \<le> T'"
        using TC cent unfolding T'_def by simp
      have "best_wrapped vs s0"
        by (simp add: best_wrapped_def s0_def sel_sum_replicate_True sm tot)
      then have "best_wrapped vs s" unfolding s_def by (rule trials_wrapped)
      then have nb: "nBest s = wrap64 (sel_sum (vfBest s) vs)"
        by (simp add: best_wrapped_def)
      have "T' \<le> nBest s0" using T'le by (simp add: s0_def)
      then have best: "T' \<le> nBest s" unfolding s_def by (rule trials_lower_bound)
      have ib: "insert_best (vfBest s) vs ({}, 0)
                  = (snd ` set (chosen (vfBest s) vs), nBest s)"
        using insert_best_wrapped [of "vfBest s" vs "{}" 0] by (simp add: wrap64_zero nb)
      have "select_from e T a rs =
         (case snd (coinLowestLarger a) of
            Some c \<Rightarrow>
              (if sub64 (fst (coinLowestLarger a)) T' \<le> sub64 (nBest s) T'
               then ((True, {c}, add64 0 (fst (coinLowestLarger a))), rnd s)
               else ((True, insert_best (vfBest s) vs ({}, 0)), rnd s))
          | None \<Rightarrow> ((True, insert_best (vfBest s) vs ({}, 0)), rnd s))"
        unfolding select_from_def Let_def T'_def vs_def s_def s0_def using c1 c2 by simp
      with res have
        "(case snd (coinLowestLarger a) of
            Some c \<Rightarrow>
              (if sub64 (fst (coinLowestLarger a)) T' \<le> sub64 (nBest s) T'
               then ((True, {c}, add64 0 (fst (coinLowestLarger a))), rnd s)
               else ((True, insert_best (vfBest s) vs ({}, 0)), rnd s))
          | None \<Rightarrow> ((True, insert_best (vfBest s) vs ({}, 0)), rnd s))
         = ((True, S, v), rs')"
        by simp
      then consider c where "snd (coinLowestLarger a) = Some c"
            "v = add64 0 (fst (coinLowestLarger a))"
        | "v = nBest s"
        unfolding ib by (auto split: option.splits if_splits)
      then show ?thesis
      proof cases
        case 1
        with single show ?thesis by simp
      next
        case 2
        with best TT' show ?thesis by simp
      qed
    qed
  qed
qed

lemma SelectCoinsMinConf_selection:
  assumes res: "SelectCoinsMinConf e mapWallet rs nTargetValue nConfMine nConfTheirs
                = Some ((ret, S, v), rs')"
  shows "\<exists>xs. set xs \<subseteq> set (candidates e nConfMine nConfTheirs (map snd mapWallet))
            \<and> (distinct (map snd mapWallet) \<longrightarrow> distinct (map snd xs))
            \<and> S = snd ` set xs \<and> v = wrap64 (sum_list (map fst xs))"
  using res
proof (cases rule: SelectCoinsMinConf_shape)
  case (1 vCoins hit)
  have same: "set (candidates e nConfMine nConfTheirs vCoins)
      = set (candidates e nConfMine nConfTheirs (map snd mapWallet))"
    using mset_candidates [OF 1(1), of e nConfMine nConfTheirs] by (metis set_mset_mset)
  from classify_Inl [OF 1(2)] have hit: "hit \<in> set (candidates e nConfMine nConfTheirs vCoins)"
    by simp
  from 1(3) have "S = {snd hit}" "v = wrap64 (fst hit)"
    by (simp_all add: add64_def)
  with hit same show ?thesis by (intro exI [of _ "[hit]"]) simp
next
  case (2 vCoins rs1 a)
  have same: "set (candidates e nConfMine nConfTheirs vCoins)
      = set (candidates e nConfMine nConfTheirs (map snd mapWallet))"
    using mset_candidates [OF 2(1), of e nConfMine nConfTheirs] by (metis set_mset_mset)
  note ca = classify_scan_wrapped [OF 2(2)]
  have larger: "0 \<le> fst (coinLowestLarger a) \<and> fst (coinLowestLarger a) \<le> INT64_MAX"
    if "snd (coinLowestLarger a) = Some c" for c
  proof -
    from ca(4) [OF that]
    have mem: "(fst (coinLowestLarger a), c) \<in> set (candidates e nConfMine nConfTheirs vCoins)"
      by simp
    from candidates_positive [OF mem] ca(3) show ?thesis by simp
  qed
  have "\<exists>xs. set xs \<subseteq> set (vValue a)
           \<union> {(fst (coinLowestLarger a), c) | c. snd (coinLowestLarger a) = Some c}
      \<and> (distinct (map snd (vValue a)) \<longrightarrow> distinct (map snd xs))
      \<and> S = snd ` set xs \<and> v = wrap64 (sum_list (map fst xs))"
    by (rule select_from_sum [OF _ 2(3)]) (rule larger)
  then obtain xs where
    xs: "set xs \<subseteq> set (vValue a)
           \<union> {(fst (coinLowestLarger a), c) | c. snd (coinLowestLarger a) = Some c}"
      "distinct (map snd (vValue a)) \<longrightarrow> distinct (map snd xs)"
      "S = snd ` set xs" "v = wrap64 (sum_list (map fst xs))"
    by blast
  have sub: "set xs \<subseteq> set (candidates e nConfMine nConfTheirs (map snd mapWallet))"
    using xs(1) ca(4) unfolding ca(1) same [symmetric] by auto
  have "distinct (map snd xs)" if "distinct (map snd mapWallet)"
  proof -
    from that have "distinct vCoins" using 2(1) by (metis mset_eq_imp_distinct_iff)
    then have "distinct (map snd (vValue a))"
      unfolding ca(1) using distinct_candidates [of vCoins e nConfMine nConfTheirs]
      by (simp add: distinct_map_filter)
    with xs(2) show ?thesis by simp
  qed
  with sub xs(3,4) show ?thesis by blast
qed

lemma SelectCoinsMinConf_reaches:
  assumes cent: "0 \<le> CENT e"
    and T: "nTargetValue + CENT e \<le> INT64_MAX"
    and res: "SelectCoinsMinConf e mapWallet rs nTargetValue nConfMine nConfTheirs
                = Some ((True, S, v), rs')"
  shows "nTargetValue \<le> v"
proof (cases "INT64_MIN \<le> nTargetValue")
  case False
  from SelectCoinsMinConf_selection [OF res] obtain xs :: "(int64 \<times> coin) list" where
    "v = wrap64 (sum_list (map fst xs))" by blast
  with wrap64_lower [of "sum_list (map fst xs)"] False show ?thesis by simp
next
  case Tmin: True
  from res show ?thesis
  proof (cases rule: SelectCoinsMinConf_shape)
    case (1 vCoins hit)
    from classify_Inl [OF 1(2)] have eq: "fst hit = nTargetValue" by simp
    have "nTargetValue \<le> INT64_MAX" using cent T by simp
    with Tmin have "wrap64 nTargetValue = nTargetValue" by (rule wrap64_id)
    with 1(3) eq show ?thesis by (simp add: add64_def)
  next
    case (2 vCoins rs1 a)
    note ca = classify_scan_wrapped [OF 2(2)]
    have larger: "\<not> fst (coinLowestLarger a) < add64 nTargetValue (CENT e)
        \<and> 0 \<le> fst (coinLowestLarger a) \<and> fst (coinLowestLarger a) \<le> INT64_MAX"
      if "snd (coinLowestLarger a) = Some c" for c
    proof -
      from ca(4) [OF that]
      have mem: "(fst (coinLowestLarger a), c) \<in> set (candidates e nConfMine nConfTheirs vCoins)"
        and nl: "\<not> fst (coinLowestLarger a) < add64 nTargetValue (CENT e)"
        by simp_all
      from candidates_positive [OF mem] nl ca(3) show ?thesis by simp
    qed
    show ?thesis
      by (rule select_from_reaches [OF ca(2) _ cent Tmin T 2(3)]) (rule larger)
  qed
qed


section \<open>Wallet::SelectCoinsMinConf: the claims\<close>

subsection \<open>Evaluation on the concrete wallets\<close>

lemma demo_wallet_ok: "wallet_no_self_spend demo_wallet \<and> wallet_keys_ok demo_wallet"
  by (simp add: wallet_no_self_spend_def wallet_keys_ok_def no_self_spend_def demo_wallet_def
      demo_tx_def)


lemma demo_eligible: "tx_eligible demo_env 1 1 (demo_tx h vs)"
  by (simp add: tx_eligible_def demo_simps)

lemma demo_select_80:
  "SelectCoinsMinConf demo_env demo_wallet demo_rand 80 1 1
     = Some ((True, {(demo_tx 1 [30], 0), (demo_tx 2 [50], 0)}, 80), demo_rand\<lparr>pos := 2\<rparr>)"
  by (simp add: demo_simps demo_wallet_def insert_commute)


subsection \<open>The selected value reaches the target\<close>

text \<open>
  Claim C1, as stated, fails where the 64-bit sums wrap around.  With the target
  \<open>2^63 - 1\<close> and one coin of value 5 in the wallet, \<^verbatim>\<open>nTargetValue + CENT\<close> wraps
  to \<open>- 2^63\<close>: the coin is filed as the lowest larger coin, the empty list of smaller
  coins passes the test of line 680, and the call returns \<open>true\<close> with no coin and the
  total 0.
\<close>

theorem SelectCoinsMinConf_target_overflow:
  "SelectCoinsMinConf demo_env [(1, demo_tx 1 [5])] demo_rand 9223372036854775807 1 1
     = Some ((True, {}, 0), demo_rand)
   \<and> (0 :: int64) < 9223372036854775807"
proof -
  let ?s0 = "\<lparr>rnd = demo_rand, nTotal = 0, vfIncluded = [], fReachedTarget = False,
              nBest = 0, vfBest = []\<rparr>"
  have "sort_descending demo_env [] = []" by (simp add: sort_descending_def)
  then show ?thesis
    using trials_Nil [of 0 "- 9223372036854775808" ?s0]
    by (simp add: demo_simps Let_def)
qed

text \<open>
  The constant \<^verbatim>\<open>CENT\<close> is taken as a parameter; a negative one would let the call
  return a larger coin below the target.
\<close>

lemma SelectCoinsMinConf_negative_CENT:
  "SelectCoinsMinConf (demo_env\<lparr>CENT := - 10\<rparr>) [(1, demo_tx 1 [95])] demo_rand 100 1 1
     = Some ((True, {(demo_tx 1 [95], 0)}, 95), demo_rand)"
  by (simp add: demo_simps Let_def)

text \<open>
  Claim C1, amended.  Let \<^verbatim>\<open>CENT\<close> be non-negative and let \<^verbatim>\<open>nTargetValue + CENT\<close>
  not exceed \<open>INT64_MAX\<close>.  Then, for every outcome of the shuffle and of the trials
  (every \<open>rs\<close>), every successful return of \<open>SelectCoinsMinConf\<close> reports a total
  \<^verbatim>\<open>nValueRet\<close> of at least the target, and the coins it returns are candidates of
  the wallet.  In a wallet that files every record under its hash the total reported is
  the 64-bit sum of the values of the coins returned, and the exact sum of their values
  is at least the target as well.  The call returns whenever no record of the wallet
  names its own hash in an input.
\<close>

theorem SelectCoinsMinConf_meets_target:
  assumes cent: "0 \<le> CENT e"
    and T: "nTargetValue + CENT e \<le> INT64_MAX"
  shows "(\<forall>S v rs'. SelectCoinsMinConf e mapWallet rs nTargetValue nConfMine nConfTheirs
                      = Some ((True, S, v), rs') \<longrightarrow>
            nTargetValue \<le> v
            \<and> S \<subseteq> snd ` set (candidates e nConfMine nConfTheirs (map snd mapWallet))
            \<and> (wallet_keys_ok mapWallet \<longrightarrow>
                 v = wrap64 (sum coin_value S) \<and> nTargetValue \<le> sum coin_value S))
         \<and> (wallet_no_self_spend mapWallet \<longrightarrow>
              SelectCoinsMinConf e mapWallet rs nTargetValue nConfMine nConfTheirs \<noteq> None)"
proof (intro conjI allI impI)
  fix S v rs'
  assume res: "SelectCoinsMinConf e mapWallet rs nTargetValue nConfMine nConfTheirs
                 = Some ((True, S, v), rs')"
  from SelectCoinsMinConf_selection [OF res] obtain xs where
    xs: "set xs \<subseteq> set (candidates e nConfMine nConfTheirs (map snd mapWallet))"
      "distinct (map snd mapWallet) \<longrightarrow> distinct (map snd xs)"
      "S = snd ` set xs" "v = wrap64 (sum_list (map fst xs))"
    by blast
  show le: "nTargetValue \<le> v" by (rule SelectCoinsMinConf_reaches [OF cent T res])
  show "S \<subseteq> snd ` set (candidates e nConfMine nConfTheirs (map snd mapWallet))"
    using xs(1,3) by auto
  assume keys: "wallet_keys_ok mapWallet"
  from xs(2) wallet_keys_ok_distinct [OF keys] have d: "distinct (map snd xs)" by simp
  have val: "\<forall>c\<in>set xs. fst c = coin_value (snd c)"
    using xs(1) candidates_positive by blast
  have nn: "\<forall>c\<in>set xs. 0 \<le> fst c"
    using xs(1) candidates_positive by fastforce
  have sm: "sum coin_value S = sum_list (map fst xs)"
    unfolding xs(3) by (rule sum_coin_values [OF d val])
  show "v = wrap64 (sum coin_value S)" unfolding sm by (rule xs(4))
  have "0 \<le> sum_list (map fst xs)" using nn by (simp add: sum_fst_nonneg)
  then have "wrap64 (sum_list (map fst xs)) \<le> sum_list (map fst xs)" by (rule wrap64_le)
  with xs(4) le show "nTargetValue \<le> sum coin_value S" unfolding sm by simp
next
  assume "wallet_no_self_spend mapWallet"
  then show "SelectCoinsMinConf e mapWallet rs nTargetValue nConfMine nConfTheirs \<noteq> None"
    by (rule SelectCoinsMinConf_returns)
qed

theorem SelectCoinsMinConf_meets_target_witness:
  "0 \<le> CENT demo_env \<and> 80 + CENT demo_env \<le> INT64_MAX
   \<and> wallet_keys_ok demo_wallet \<and> wallet_no_self_spend demo_wallet
   \<and> (\<exists>S v rs'. SelectCoinsMinConf demo_env demo_wallet demo_rand 80 1 1
                     = Some ((True, S, v), rs')
                   \<and> 80 \<le> v \<and> v = wrap64 (sum coin_value S) \<and> 80 \<le> sum coin_value S
                   \<and> S \<subseteq> snd ` set (candidates demo_env 1 1 (map snd demo_wallet)))"
proof -
  have h1: "0 \<le> CENT demo_env" by (simp add: demo_env_def)
  have h3: "80 + CENT demo_env \<le> INT64_MAX" by (simp add: demo_env_def INT64_MAX_def)
  have h4: "wallet_keys_ok demo_wallet" using demo_wallet_ok by simp
  have h5: "wallet_no_self_spend demo_wallet" using demo_wallet_ok by simp
  from demo_select_80 obtain S v rs' where
    r: "SelectCoinsMinConf demo_env demo_wallet demo_rand 80 1 1 = Some ((True, S, v), rs')"
    by blast
  from SelectCoinsMinConf_meets_target [OF h1 h3, of demo_wallet demo_rand 1 1] r h4
  have "80 \<le> v \<and> v = wrap64 (sum coin_value S) \<and> 80 \<le> sum coin_value S
      \<and> S \<subseteq> snd ` set (candidates demo_env 1 1 (map snd demo_wallet))"
    by blast
  with r h1 h3 h4 h5 show ?thesis by blast
qed

subsection \<open>An exact match is returned alone\<close>

text \<open>
  Claim C5.  If some record of the wallet is eligible and has an unspent owned output
  whose value is the target (a positive 64-bit value), then for every outcome of the
  shuffle the call returns \<open>true\<close> with exactly one coin and \<^verbatim>\<open>nValueRet\<close> is
  the target; the coin is an unspent owned output of an eligible record of the wallet,
  and its value is the target.  The wallet is one in which no record names its
  own hash in an input, so that every call of \<open>IsConfirmed\<close> returns.
\<close>

theorem SelectCoinsMinConf_exact_match:
  assumes wf: "wallet_no_self_spend mapWallet"
    and rec: "pcoin \<in> snd ` set mapWallet"
    and el: "tx_eligible e nConfMine nConfTheirs pcoin"
    and out: "i < length (vout pcoin)" "\<not> IsSpent pcoin i" "IsMine e (vout pcoin ! i)"
    and val: "nValue (vout pcoin ! i) = nTargetValue"
    and pos: "0 < nTargetValue" "nTargetValue \<le> INT64_MAX"
  shows "\<exists>p k rs'. SelectCoinsMinConf e mapWallet rs nTargetValue nConfMine nConfTheirs
                      = Some ((True, {(p, k)}, nTargetValue), rs')
                    \<and> p \<in> snd ` set mapWallet
                    \<and> tx_eligible e nConfMine nConfTheirs p
                    \<and> k < length (vout p) \<and> \<not> IsSpent p k \<and> IsMine e (vout p ! k)
                    \<and> nValue (vout p ! k) = nTargetValue"
proof -
  let ?acc = "\<lparr>vValue = [], nTotalLower = 0, coinLowestLarger = (INT64_MAX, None)\<rparr>"
  obtain vCoins rs1 where
    sh: "random_shuffle (map snd mapWallet) rs = (vCoins, rs1)" and
    mc: "mset (candidates e nConfMine nConfTheirs vCoins)
           = mset (candidates e nConfMine nConfTheirs (map snd mapWallet))" and
    sc: "scan_coins e nTargetValue nConfMine nConfTheirs vCoins ?acc
           = Some (classify nTargetValue (CENT e) (candidates e nConfMine nConfTheirs vCoins) ?acc)"
    by (rule SelectCoinsMinConf_scan [OF wf])
  have "(coin_value (pcoin, i), (pcoin, i))
          \<in> set (candidates e nConfMine nConfTheirs (map snd mapWallet))"
    unfolding set_candidates using rec el out val pos by auto
  moreover have same: "set (candidates e nConfMine nConfTheirs vCoins)
      = set (candidates e nConfMine nConfTheirs (map snd mapWallet))"
    using mc by (metis set_mset_mset)
  moreover have "coin_value (pcoin, i) = nTargetValue"
    using val by (simp add: coin_value_def)
  ultimately have "\<exists>c\<in>set (candidates e nConfMine nConfTheirs vCoins). fst c = nTargetValue"
    by force
  from classify_exact [OF this]
  obtain c where c: "c \<in> set (candidates e nConfMine nConfTheirs vCoins)" "fst c = nTargetValue"
    and cl: "classify nTargetValue (CENT e) (candidates e nConfMine nConfTheirs vCoins) ?acc = Inl c"
    by blast
  from c(1) have "c \<in> set (candidates e nConfMine nConfTheirs (map snd mapWallet))"
    unfolding same .
  then obtain p k where pk: "c = (coin_value (p, k), (p, k))"
    and mem: "p \<in> set (map snd mapWallet)" "tx_eligible e nConfMine nConfTheirs p"
      "k < length (vout p)" "\<not> IsSpent p k" "IsMine e (vout p ! k)"
    unfolding set_candidates by blast
  from pk c(2) have v: "nValue (vout p ! k) = nTargetValue"
    by (simp add: coin_value_def)
  have "add64 0 nTargetValue = nTargetValue"
    using pos by (simp add: add64_id INT64_MIN_def)
  with sh sc cl c(2) pk
  have "SelectCoinsMinConf e mapWallet rs nTargetValue nConfMine nConfTheirs
          = Some ((True, {(p, k)}, nTargetValue), rs1)"
    by (simp add: SelectCoinsMinConf_def)
  moreover from mem(1) have "p \<in> snd ` set mapWallet" by simp
  ultimately show ?thesis using mem(2-5) v by blast
qed

theorem SelectCoinsMinConf_exact_match_witness:
  "wallet_no_self_spend demo_wallet
   \<and> demo_tx 2 [50] \<in> snd ` set demo_wallet
   \<and> tx_eligible demo_env 1 1 (demo_tx 2 [50])
   \<and> 0 < length (vout (demo_tx 2 [50]))
   \<and> \<not> IsSpent (demo_tx 2 [50]) 0
   \<and> IsMine demo_env (vout (demo_tx 2 [50]) ! 0)
   \<and> nValue (vout (demo_tx 2 [50]) ! 0) = 50
   \<and> (50 :: int64) \<le> INT64_MAX
   \<and> (\<exists>p k rs'. SelectCoinsMinConf demo_env demo_wallet demo_rand 50 1 1
                     = Some ((True, {(p, k)}, 50), rs')
                   \<and> p \<in> snd ` set demo_wallet \<and> tx_eligible demo_env 1 1 p
                   \<and> k < length (vout p) \<and> \<not> IsSpent p k \<and> IsMine demo_env (vout p ! k)
                   \<and> nValue (vout p ! k) = 50)"
proof -
  have h1: "wallet_no_self_spend demo_wallet" using demo_wallet_ok by simp
  have h2: "demo_tx 2 [50] \<in> snd ` set demo_wallet" by (simp add: demo_wallet_def)
  have h3: "tx_eligible demo_env 1 1 (demo_tx 2 [50])" by (rule demo_eligible)
  have h4: "0 < length (vout (demo_tx 2 [50]))" by (simp add: demo_tx_def)
  have h5: "\<not> IsSpent (demo_tx 2 [50]) 0" by (simp add: IsSpent_def demo_tx_def)
  have h6: "IsMine demo_env (vout (demo_tx 2 [50]) ! 0)" by (simp add: demo_env_def)
  have h7: "nValue (vout (demo_tx 2 [50]) ! 0) = 50" by (simp add: demo_tx_def)
  have h8: "(0 :: int64) < 50" by simp
  have h9: "(50 :: int64) \<le> INT64_MAX" by (simp add: INT64_MAX_def)
  note c = SelectCoinsMinConf_exact_match [OF h1 h2 h3 h4 h5 h6 h7 h8 h9, of demo_rand]
  from h1 h2 h3 h4 h5 h6 h7 h9 c show ?thesis by blast
qed

subsection \<open>The example with coins of value 30, 50 and 120\<close>



subsection \<open>The reported total is the sum of the returned coins\<close>




section \<open>Wallet::SelectCoins: the order of the three attempts\<close>

text \<open>
  Claim C6.  \<open>SelectCoins\<close> calls \<open>SelectCoinsMinConf\<close> with the confirmation
  tuples (1,6), (1,1), (0,1) in this order, each call continuing with the random state
  the call before left.  If the first call succeeds its result is returned; if it fails
  and the second succeeds, the second result is returned; if both fail, the result is
  that of the third call.  Conversely a failure of \<open>SelectCoins\<close> is a failure of all
  three calls.
\<close>

theorem SelectCoins_sequence:
  "(\<forall>r1 rs1. SelectCoinsMinConf e mapWallet rs nTargetValue 1 6 = Some (r1, rs1) \<longrightarrow>
      (fst r1 \<longrightarrow> SelectCoins e mapWallet rs nTargetValue = Some (r1, rs1)) \<and>
      (\<not> fst r1 \<longrightarrow>
        (\<forall>r2 rs2. SelectCoinsMinConf e mapWallet rs1 nTargetValue 1 1 = Some (r2, rs2) \<longrightarrow>
           (fst r2 \<longrightarrow> SelectCoins e mapWallet rs nTargetValue = Some (r2, rs2)) \<and>
           (\<not> fst r2 \<longrightarrow> SelectCoins e mapWallet rs nTargetValue
                            = SelectCoinsMinConf e mapWallet rs2 nTargetValue 0 1))))
   \<and> (\<forall>r rs'. SelectCoins e mapWallet rs nTargetValue = Some (r, rs') \<and> \<not> fst r \<longrightarrow>
        (\<exists>r1 rs1 r2 rs2.
           SelectCoinsMinConf e mapWallet rs nTargetValue 1 6 = Some (r1, rs1) \<and> \<not> fst r1 \<and>
           SelectCoinsMinConf e mapWallet rs1 nTargetValue 1 1 = Some (r2, rs2) \<and> \<not> fst r2 \<and>
           SelectCoinsMinConf e mapWallet rs2 nTargetValue 0 1 = Some (r, rs')))"
  by (auto simp: SelectCoins_def split: option.splits if_splits)

theorem SelectCoins_sequence_witness:
  "SelectCoinsMinConf demo_env [(1, demo_tx 1 [100])] demo_rand 80 1 6
     = Some ((False, {}, 0), demo_rand)
   \<and> SelectCoinsMinConf demo_env [(1, demo_tx 1 [100])] demo_rand 80 1 1
     = Some ((True, {(demo_tx 1 [100], 0)}, 100), demo_rand)
   \<and> SelectCoins demo_env [(1, demo_tx 1 [100])] demo_rand 80
     = Some ((True, {(demo_tx 1 [100], 0)}, 100), demo_rand)"
  using SelectCoins_sequence [of demo_env "[(1, demo_tx 1 [100])]" demo_rand 80]
    demo_select_1_6 demo_select_1_1
  by auto

section \<open>The key pool: reserve and return\<close>





section \<open>Wallet::CreateTransaction: which requests are rejected\<close>

text \<open>
  The loop returns false exactly when the total of some proper prefix of the amounts is
  negative, and otherwise its result is the total of all of them.
\<close>

lemma sum_amounts_None:
  "sum_amounts vecSend v = None \<longleftrightarrow>
     (\<exists>k<length vecSend. fold (\<lambda>s nVal. add64 nVal (snd s)) (take k vecSend) v < 0)"
proof (induction vecSend arbitrary: v)
  case Nil
  show ?case by simp
next
  case (Cons s rest)
  show ?case
  proof (cases "v < 0")
    case True
    then have "fold (\<lambda>s nVal. add64 nVal (snd s)) (take 0 (s # rest)) v < 0" by simp
    then have "\<exists>k<length (s # rest). fold (\<lambda>s nVal. add64 nVal (snd s)) (take k (s # rest)) v < 0"
      by (intro exI [of _ 0]) simp
    with True show ?thesis by simp
  next
    case False
    have "(\<exists>k<length (s # rest). fold (\<lambda>s nVal. add64 nVal (snd s)) (take k (s # rest)) v < 0)
       \<longleftrightarrow> (\<exists>k<length rest. fold (\<lambda>s nVal. add64 nVal (snd s)) (take k rest) (add64 v (snd s)) < 0)"
      (is "?L \<longleftrightarrow> ?R")
    proof
      assume ?L
      then obtain k where k: "k < length (s # rest)"
        "fold (\<lambda>s nVal. add64 nVal (snd s)) (take k (s # rest)) v < 0" by blast
      with False obtain j where "k = Suc j" by (cases k) auto
      with k show ?R by (intro exI [of _ j]) simp
    next
      assume ?R
      then obtain j where "j < length rest"
        "fold (\<lambda>s nVal. add64 nVal (snd s)) (take j rest) (add64 v (snd s)) < 0" by blast
      then show ?L by (intro exI [of _ "Suc j"]) simp
    qed
    with False Cons.IH [of "add64 v (snd s)"] show ?thesis by simp
  qed
qed

lemma sum_amounts_Some:
  "sum_amounts vecSend v = Some t \<Longrightarrow> t = fold (\<lambda>s nVal. add64 nVal (snd s)) vecSend v"
  by (induction vecSend arbitrary: v) (auto split: if_splits)

lemma CreateTransaction_checks:
  "CreateTransaction fee_loop vecSend =
     (if vecSend = [] \<or> (\<exists>k\<le>length vecSend. running_total vecSend k < 0) then None
      else fee_loop (running_total vecSend (length vecSend)) vecSend)"
proof (cases "sum_amounts vecSend 0")
  case None
  then obtain k where "k < length vecSend" "running_total vecSend k < 0"
    unfolding sum_amounts_None running_total_def by blast
  then have "\<exists>k\<le>length vecSend. running_total vecSend k < 0" by (intro exI [of _ k]) simp
  with None show ?thesis by (simp add: CreateTransaction_def)
next
  case (Some t)
  then have t: "t = running_total vecSend (length vecSend)"
    using sum_amounts_Some [OF Some] by (simp add: running_total_def)
  have no: "\<not> (\<exists>k<length vecSend. running_total vecSend k < 0)"
    using Some sum_amounts_None [of vecSend 0] by (simp add: running_total_def)
  have eq: "(\<exists>k\<le>length vecSend. running_total vecSend k < 0) \<longleftrightarrow> t < 0"
    using no t by (metis le_neq_implies_less order_refl)
  show ?thesis
    using Some eq t by (simp add: CreateTransaction_def)
qed

text \<open>
  Claim C3.  A request of two outputs with the amounts 10 and -3 passes every check:
  the running totals are 0 and 10 when they are tested and the total is 7, so the
  call goes on to the fee loop with the total 7 and the request unchanged.  By \<open>CreateTransaction_checks\<close> a request is rejected by the checks exactly
  when it is empty or one of its running totals, the full total included, is negative.
\<close>

theorem CreateTransaction_accepts_negative_amount:
  "CreateTransaction fee_loop [(s, 10), (s', - 3)] = fee_loop 7 [(s, 10), (s', - 3)]"
  by (simp add: CreateTransaction_def add64_def wrap64_def)


section \<open>Wallet::AddToWallet: adding a record twice\<close>

subsection \<open>Bitmaps and records that grow\<close>

lemma length_spent_or: "length (spent_or bs cs) = length bs"
  by (induction bs cs rule: spent_or.induct) simp_all

lemma nth_spent_or:
  "i < length bs \<Longrightarrow> spent_or bs cs ! i = (bs ! i \<or> (i < length cs \<and> cs ! i))"
proof (induction bs cs arbitrary: i rule: spent_or.induct)
  case (1 b bs c cs)
  then show ?case by (cases i) simp_all
qed simp_all

lemma spent_le_refl: "spent_le bs bs"
  by (simp add: spent_le_def)

lemma spent_le_trans: "spent_le as bs \<Longrightarrow> spent_le bs cs \<Longrightarrow> spent_le as cs"
  by (auto simp: spent_le_def)


lemma spent_or_absorbed:
  assumes "\<forall>i. i < length bs \<and> i < length cs \<and> cs ! i \<longrightarrow> bs ! i"
  shows "spent_or bs cs = bs"
  using assms by (intro nth_equalityI) (auto simp: length_spent_or nth_spent_or)

lemma spent_le_MarkSpent: "spent_le (vfSpent wtx) (vfSpent (MarkSpent wtx n))"
proof -
  let ?p = "vfSpent wtx @ replicate (length (vout wtx) - length (vfSpent wtx)) False"
  have "?p[n := True] ! i" if "i < length (vfSpent wtx)" "vfSpent wtx ! i" for i
  proof (cases "i = n")
    case True
    with that show ?thesis by simp
  next
    case False
    with that show ?thesis by (simp add: nth_append)
  qed
  then show ?thesis by (simp add: spent_le_def MarkSpent_def)
qed

lemma spent_grown_iff:
  "spent_grown a b \<longleftrightarrow>
     (\<exists>x. b = a\<lparr>vfSpent := x\<rparr> \<and> spent_le (vfSpent a) x
          \<and> length x \<le> max (length (vfSpent a)) (length (vout a)))"
proof
  assume "spent_grown a b"
  then have "b = a\<lparr>vfSpent := vfSpent b\<rparr> \<and> spent_le (vfSpent a) (vfSpent b)
      \<and> length (vfSpent b) \<le> max (length (vfSpent a)) (length (vout a))"
    unfolding spent_grown_def .
  then show "\<exists>x. b = a\<lparr>vfSpent := x\<rparr> \<and> spent_le (vfSpent a) x
      \<and> length x \<le> max (length (vfSpent a)) (length (vout a))" by blast
next
  assume "\<exists>x. b = a\<lparr>vfSpent := x\<rparr> \<and> spent_le (vfSpent a) x
      \<and> length x \<le> max (length (vfSpent a)) (length (vout a))"
  then obtain x where x: "b = a\<lparr>vfSpent := x\<rparr>" "spent_le (vfSpent a) x"
    "length x \<le> max (length (vfSpent a)) (length (vout a))" by blast
  show "spent_grown a b" unfolding spent_grown_def by (simp add: x)
qed

lemma spent_grown_refl: "spent_grown r r"
  by (simp add: spent_grown_def spent_le_refl)

lemma spent_grown_trans:
  assumes "spent_grown a b" "spent_grown b c"
  shows "spent_grown a c"
proof -
  from assms obtain x y where x: "b = a\<lparr>vfSpent := x\<rparr>" "spent_le (vfSpent a) x"
      "length x \<le> max (length (vfSpent a)) (length (vout a))"
    and y: "c = b\<lparr>vfSpent := y\<rparr>" "spent_le (vfSpent b) y"
      "length y \<le> max (length (vfSpent b)) (length (vout b))"
    unfolding spent_grown_iff by blast
  have "c = a\<lparr>vfSpent := y\<rparr>" by (simp add: x(1) y(1))
  moreover have "spent_le (vfSpent a) y"
    using spent_le_trans [OF x(2)] y(2) by (simp add: x(1))
  moreover have "length y \<le> max (length (vfSpent a)) (length (vout a))"
    using x(3) y(3) by (simp add: x(1))
  ultimately show ?thesis unfolding spent_grown_iff by blast
qed

lemma spent_grown_MarkSpent: "spent_grown wtx (MarkSpent wtx n)"
proof -
  have "MarkSpent wtx n = wtx\<lparr>vfSpent := vfSpent (MarkSpent wtx n)\<rparr>"
    by (simp add: MarkSpent_def)
  moreover have "length (vfSpent (MarkSpent wtx n)) \<le> max (length (vfSpent wtx)) (length (vout wtx))"
    by (simp add: MarkSpent_def)
  ultimately show ?thesis
    unfolding spent_grown_iff using spent_le_MarkSpent [of wtx n] by blast
qed


lemma IsSpent_MarkSpent: "n < length (vout wtx) \<Longrightarrow> IsSpent (MarkSpent wtx n) n"
  by (simp add: IsSpent_def MarkSpent_def)

lemma IsSpent_grown: "spent_grown a b \<Longrightarrow> IsSpent a n \<Longrightarrow> IsSpent b n"
  unfolding spent_grown_iff by (auto simp: spent_le_def IsSpent_def)

lemma grown_fields:
  assumes "spent_grown a b"
  shows "vout b = vout a" "vin b = vin a" "GetHash b = GetHash a" "blockHash b = blockHash a"
    "merkleBranch b = merkleBranch a" "merkleIndex b = merkleIndex a" "fFromMe b = fFromMe a"
    "vtxPrev b = vtxPrev a" "nTimeReceived b = nTimeReceived a"
    "spent_le (vfSpent a) (vfSpent b)"
    "length (vfSpent b) \<le> max (length (vfSpent a)) (length (vout a))"
proof -
  from assms obtain x where x: "b = a\<lparr>vfSpent := x\<rparr>" "spent_le (vfSpent a) x"
    "length x \<le> max (length (vfSpent a)) (length (vout a))"
    unfolding spent_grown_iff by blast
  show "vout b = vout a" "vin b = vin a" "GetHash b = GetHash a" "blockHash b = blockHash a"
    "merkleBranch b = merkleBranch a" "merkleIndex b = merkleIndex a" "fFromMe b = fFromMe a"
    "vtxPrev b = vtxPrev a" "nTimeReceived b = nTimeReceived a"
    "spent_le (vfSpent a) (vfSpent b)"
    "length (vfSpent b) \<le> max (length (vfSpent a)) (length (vout a))"
    using x(2,3) by (simp_all add: x(1))
qed




lemma merge_record_absorbed:
  assumes "merged_in wtxIn wtx"
  shows "merge_record wtxIn wtx = UpdateSpent wtx (vfSpent wtxIn)"
  using assms unfolding merged_in_def
  by (cases "blockHash wtxIn = 0"; cases "merkleIndex wtxIn = - 1"; cases "fFromMe wtxIn")
    (simp_all add: merge_record_def Let_def split_def)

lemma merge_record_absorbs:
  "merged_in wtxIn (snd (merge_record wtxIn wtx))"
  "length (vfSpent (snd (merge_record wtxIn wtx))) = length (vfSpent wtx)"
  "vout (snd (merge_record wtxIn wtx)) = vout wtx"
  "spent_in (vfSpent wtxIn) (vfSpent (snd (merge_record wtxIn wtx)))"
  by (simp_all add: merge_record_def Let_def UpdateSpent_def length_spent_or nth_spent_or
      merged_in_def spent_in_def split_def)

lemma spent_or_absorbed_in: "spent_in cs bs \<Longrightarrow> spent_or bs cs = bs"
  by (rule spent_or_absorbed) (simp add: spent_in_def)

lemma merged_in_grown: "merged_in wtxIn a \<Longrightarrow> spent_grown a b \<Longrightarrow> merged_in wtxIn b"
  using grown_fields [of a b] by (simp add: merged_in_def)

subsection \<open>WalletUpdateSpent only marks, and a second pass marks nothing\<close>

lemma wallet_grown_refl: "wallet_grown m m"
  by (simp add: wallet_grown_def list_all2_refl spent_grown_refl)

lemma wallet_grown_trans:
  assumes "wallet_grown m1 m2" "wallet_grown m2 m3"
  shows "wallet_grown m1 m3"
proof -
  have step: "fst c = fst a \<and> spent_grown (snd a) (snd c)"
    if "fst b = fst a \<and> spent_grown (snd a) (snd b)" "fst c = fst b \<and> spent_grown (snd b) (snd c)"
    for a b c :: "uint256 \<times> CWalletTx"
    using that spent_grown_trans by auto
  show ?thesis
    using assms unfolding wallet_grown_def
    by (rule list_all2_trans [rotated]) (use step in blast)
qed

lemma wallet_grown_keys: "wallet_grown m m' \<Longrightarrow> map fst m' = map fst m"
  unfolding wallet_grown_def by (induction rule: list_all2_induct) simp_all

lemma wallet_grown_find:
  "wallet_grown m m' \<Longrightarrow>
     (case map_of m k of
        None \<Rightarrow> map_of m' k = None
      | Some r \<Rightarrow> (\<exists>r'. map_of m' k = Some r' \<and> spent_grown r r'))"
  unfolding wallet_grown_def
proof (induction rule: list_all2_induct)
  case Nil
  show ?case by simp
next
  case (Cons a m b m')
  then show ?case by (cases a; cases b) (auto split: option.splits)
qed

lemma wallet_grown_Some:
  "wallet_grown m m' \<Longrightarrow> map_of m k = Some r \<Longrightarrow> \<exists>r'. map_of m' k = Some r' \<and> spent_grown r r'"
  using wallet_grown_find [of m m' k] by simp

lemma wallet_grown_None: "wallet_grown m m' \<Longrightarrow> map_of m k = None \<Longrightarrow> map_of m' k = None"
  using wallet_grown_find [of m m' k] by simp

lemma wallet_grown_update:
  "map_of m k = Some r \<Longrightarrow> spent_grown r r' \<Longrightarrow> wallet_grown m (AList.update k r' m)"
proof (induction m)
  case Nil
  then show ?case by simp
next
  case (Cons a m)
  show ?case
  proof (cases "fst a = k")
    case True
    with Cons.prems have "snd a = r" by (cases a) simp
    with True Cons.prems(2) show ?thesis
      using wallet_grown_refl [of m]
      by (cases a) (simp add: wallet_grown_def)
  next
    case False
    with Cons show ?thesis
      by (cases a) (simp add: wallet_grown_def spent_grown_refl)
  qed
qed

lemma WalletUpdateSpent_loop_grown:
  "WalletUpdateSpent_loop e ins st = (out, st') \<Longrightarrow> wallet_grown (fst st) (fst st')"
proof (induction ins arbitrary: st)
  case Nil
  then show ?case by (simp add: wallet_grown_refl)
next
  case (Cons txin rest)
  show ?case
  proof (cases "map_of (fst st) (prevout_hash txin)")
    case None
    with Cons show ?thesis by simp
  next
    case (Some wtx)
    consider (spent) "IsSpent wtx (prevout_n txin)"
      | (range) "\<not> IsSpent wtx (prevout_n txin)" "length (vout wtx) \<le> prevout_n txin"
      | (mine) "\<not> IsSpent wtx (prevout_n txin)" "\<not> length (vout wtx) \<le> prevout_n txin"
          "IsMine e (vout wtx ! prevout_n txin)"
      | (other) "\<not> IsSpent wtx (prevout_n txin)" "\<not> length (vout wtx) \<le> prevout_n txin"
          "\<not> IsMine e (vout wtx ! prevout_n txin)"
      by blast
    then show ?thesis
    proof cases
      case spent
      with Cons Some show ?thesis by simp
    next
      case range
      with Cons.prems Some show ?thesis by (auto simp: wallet_grown_refl)
    next
      case mine
      let ?m = "AList.update (prevout_hash txin) (MarkSpent wtx (prevout_n txin)) (fst st)"
      from Cons.prems Some mine
      have "WalletUpdateSpent_loop e rest (?m, snd st @ [prevout_hash txin]) = (out, st')"
        by simp
      from Cons.IH [OF this] have "wallet_grown ?m (fst st')" by simp
      moreover have "wallet_grown (fst st) ?m"
        using wallet_grown_update [OF Some spent_grown_MarkSpent] .
      ultimately show ?thesis by (rule wallet_grown_trans [rotated])
    next
      case other
      with Cons Some show ?thesis by simp
    qed
  qed
qed

lemma WalletUpdateSpent_loop_again:
  "WalletUpdateSpent_loop e ins st = (None, st') \<Longrightarrow>
     WalletUpdateSpent_loop e ins (fst st', vu) = (None, (fst st', vu))"
proof (induction ins arbitrary: st)
  case Nil
  then show ?case by simp
next
  case (Cons txin rest)
  let ?h = "prevout_hash txin" and ?n = "prevout_n txin"
  have skip: "WalletUpdateSpent_loop e (txin # rest) (fst st', vu)
      = WalletUpdateSpent_loop e rest (fst st', vu)"
    if g: "wallet_grown m1 (fst st')"
      and m1: "case map_of m1 ?h of None \<Rightarrow> True
               | Some r \<Rightarrow> IsSpent r ?n \<or> (?n < length (vout r) \<and> \<not> IsMine e (vout r ! ?n))"
    for m1
  proof (cases "map_of m1 ?h")
    case None
    with wallet_grown_None [OF g] show ?thesis by simp
  next
    case (Some r)
    with wallet_grown_Some [OF g] obtain r' where
      r': "map_of (fst st') ?h = Some r'" "spent_grown r r'" by blast
    from m1 Some have "IsSpent r ?n \<or> (?n < length (vout r) \<and> \<not> IsMine e (vout r ! ?n))"
      by simp
    with IsSpent_grown [OF r'(2)] grown_fields(1) [OF r'(2)]
    have "IsSpent r' ?n \<or> (?n < length (vout r') \<and> \<not> IsMine e (vout r' ! ?n))" by auto
    with r'(1) show ?thesis by auto
  qed
  show ?case
  proof (cases "map_of (fst st) ?h")
    case None
    with Cons.prems have run: "WalletUpdateSpent_loop e rest st = (None, st')" by simp
    have "wallet_grown (fst st) (fst st')" using WalletUpdateSpent_loop_grown [OF run] .
    from skip [OF this] None Cons.IH [OF run] show ?thesis by simp
  next
    case (Some wtx)
    consider (spent) "IsSpent wtx ?n"
      | (range) "\<not> IsSpent wtx ?n" "length (vout wtx) \<le> ?n"
      | (mine) "\<not> IsSpent wtx ?n" "\<not> length (vout wtx) \<le> ?n" "IsMine e (vout wtx ! ?n)"
      | (other) "\<not> IsSpent wtx ?n" "\<not> length (vout wtx) \<le> ?n" "\<not> IsMine e (vout wtx ! ?n)"
      by blast
    then show ?thesis
    proof cases
      case spent
      with Cons.prems Some have run: "WalletUpdateSpent_loop e rest st = (None, st')" by simp
      have "wallet_grown (fst st) (fst st')" using WalletUpdateSpent_loop_grown [OF run] .
      from skip [OF this] Some spent Cons.IH [OF run] show ?thesis by simp
    next
      case range
      with Cons.prems Some show ?thesis by simp
    next
      case mine
      let ?m = "AList.update ?h (MarkSpent wtx ?n) (fst st)"
      from Cons.prems Some mine
      have run: "WalletUpdateSpent_loop e rest (?m, snd st @ [?h]) = (None, st')" by simp
      have g: "wallet_grown ?m (fst st')" using WalletUpdateSpent_loop_grown [OF run] by simp
      have "map_of ?m ?h = Some (MarkSpent wtx ?n)" by (simp add: update_conv')
      moreover have "IsSpent (MarkSpent wtx ?n) ?n" using mine(2) by (simp add: IsSpent_MarkSpent)
      ultimately have "case map_of ?m ?h of None \<Rightarrow> True
               | Some r \<Rightarrow> IsSpent r ?n \<or> (?n < length (vout r) \<and> \<not> IsMine e (vout r ! ?n))"
        by simp
      from skip [OF g this] Cons.IH [OF run] show ?thesis by simp
    next
      case other
      with Cons.prems Some have run: "WalletUpdateSpent_loop e rest st = (None, st')" by simp
      have "wallet_grown (fst st) (fst st')" using WalletUpdateSpent_loop_grown [OF run] .
      from skip [OF this] Some other Cons.IH [OF run] show ?thesis by simp
    qed
  qed
qed

subsection \<open>One call, and a second call with the same record\<close>

lemma map_of_insort_key: "map_of (insort_key fst (h, v) m) = (map_of m)(h \<mapsto> v)"
proof (induction m)
  case Nil
  show ?case by simp
next
  case (Cons a m)
  show ?case
  proof (cases "h \<le> fst a")
    case True
    then show ?thesis by (cases a) (auto simp: fun_eq_iff)
  next
    case False
    then have "fst a \<noteq> h" by auto
    with False Cons show ?thesis by (cases a) (auto simp: fun_upd_twist)
  qed
qed

lemma insert_or_merge_find:
  assumes "insert_or_merge io m wtxIn = (fInsertedNew, fUpdated, wtx, m1)"
  shows "map_of m1 = (map_of m)(GetHash wtxIn \<mapsto> wtx)"
  using assms
  by (auto simp: insert_or_merge_def Let_def map_of_insort_key update_conv'
      split: option.splits prod.splits)


lemma insert_or_merge_absorbs:
  assumes im: "insert_or_merge io m wtxIn = (fInsertedNew, fUpdated, wtx, m1)"
    and len: "\<forall>found. map_of m (GetHash wtxIn) = Some found \<longrightarrow>
                length (vout found) \<le> length (vfSpent found)"
  shows "merged_in wtxIn wtx"
    and "\<And>r. spent_grown wtx r \<Longrightarrow> spent_in (vfSpent wtxIn) (vfSpent r)"
proof -
  show "merged_in wtxIn wtx"
  proof (cases "map_of m (GetHash wtxIn)")
    case None
    with im have "wtx = wtxIn\<lparr>nTimeReceived := GetAdjustedTime io\<rparr>"
      by (simp add: insert_or_merge_def Let_def)
    then show ?thesis by (simp add: merged_in_def)
  next
    case (Some found)
    with im have "wtx = snd (merge_record wtxIn found)"
      by (auto simp: insert_or_merge_def Let_def split: prod.splits)
    then show ?thesis by (simp add: merge_record_absorbs)
  qed
next
  fix r assume g: "spent_grown wtx r"
  show "spent_in (vfSpent wtxIn) (vfSpent r)"
  proof (cases "map_of m (GetHash wtxIn)")
    case None
    with im have "wtx = wtxIn\<lparr>nTimeReceived := GetAdjustedTime io\<rparr>"
      by (simp add: insert_or_merge_def Let_def)
    then have "vfSpent wtx = vfSpent wtxIn" by simp
    with grown_fields(10) [OF g] show ?thesis by (auto simp: spent_in_def spent_le_def)
  next
    case (Some found)
    with im have w: "wtx = snd (merge_record wtxIn found)"
      by (auto simp: insert_or_merge_def Let_def split: prod.splits)
    from len Some have "length (vout found) \<le> length (vfSpent found)" by simp
    with merge_record_absorbs(2,3) [of wtxIn found] w
    have "length (vout wtx) \<le> length (vfSpent wtx)" by simp
    with grown_fields(10,11) [OF g] have l: "length (vfSpent r) = length (vfSpent wtx)"
      by (simp add: spent_le_def)
    have "spent_in (vfSpent wtxIn) (vfSpent wtx)" using w by (simp add: merge_record_absorbs)
    with l grown_fields(10) [OF g] show ?thesis by (auto simp: spent_in_def spent_le_def)
  qed
qed

lemma insert_or_merge_again:
  assumes found: "map_of m (GetHash wtxIn) = Some r"
    and meta: "merged_in wtxIn r"
  shows "insert_or_merge io m wtxIn
      = (False, fst (UpdateSpent r (vfSpent wtxIn)), snd (UpdateSpent r (vfSpent wtxIn)),
         AList.update (GetHash wtxIn) (snd (UpdateSpent r (vfSpent wtxIn))) m)"
  using found merge_record_absorbed [OF meta]
  by (simp add: insert_or_merge_def Let_def split_def)

lemma UpdateSpent_absorbed:
  "spent_in vfNewSpent (vfSpent r) \<Longrightarrow> UpdateSpent r vfNewSpent = (False, r)"
  by (simp add: UpdateSpent_def spent_or_absorbed_in)

lemma AddToWallet_grown:
  assumes im: "insert_or_merge io (fst st) wtxIn = (fInsertedNew, fUpdated, wtx, m1)"
  shows "wallet_grown m1 (fst (snd (AddToWallet e io st wtxIn)))"
proof -
  obtain out st' where Pair: "WalletUpdateSpent e wtx (m1, snd st @ [GetHash wtxIn]) = (out, st')"
    by (cases "WalletUpdateSpent e wtx (m1, snd st @ [GetHash wtxIn])") auto
  then have "wallet_grown m1 (fst st')"
    using WalletUpdateSpent_loop_grown [of e "vin wtx" "(m1, snd st @ [GetHash wtxIn])" out st']
    by (simp add: WalletUpdateSpent_def)
  with Pair im show ?thesis
    by (auto simp: AddToWallet_def wallet_grown_refl split: option.splits)
qed

lemma AddToWallet_completed:
  assumes im: "insert_or_merge io (fst st) wtxIn = (fInsertedNew, fUpdated, wtx, m1)"
    and ok: "fst (AddToWallet e io st wtxIn) = Inr True"
  shows "\<exists>vu. WalletUpdateSpent_loop e (vin wtx) (m1, vu)
            = (None, snd (AddToWallet e io st wtxIn))"
proof -
  obtain out st' where Pair: "WalletUpdateSpent e wtx (m1, snd st @ [GetHash wtxIn]) = (out, st')"
    by (cases "WalletUpdateSpent e wtx (m1, snd st @ [GetHash wtxIn])") auto
  with im ok have "out = None \<and> snd (AddToWallet e io st wtxIn) = st'"
    by (auto simp: AddToWallet_def split: option.splits if_splits)
  with Pair show ?thesis by (auto simp: WalletUpdateSpent_def)
qed

lemma WalletUpdateSpent_loop_IsMine:
  "IsMine e2 = IsMine e1 \<Longrightarrow> WalletUpdateSpent_loop e2 ins st = WalletUpdateSpent_loop e1 ins st"
  by (induction ins arbitrary: st) (simp_all split: option.splits)

lemma AddToWallet_stored:
  assumes im: "insert_or_merge io (fst st) wtxIn = (fInsertedNew, fUpdated, wtx, m1)"
  shows "\<exists>r. map_of (fst (snd (AddToWallet e io st wtxIn))) (GetHash wtxIn) = Some r
             \<and> spent_grown wtx r"
  using wallet_grown_Some [OF AddToWallet_grown [OF im, of e], of "GetHash wtxIn" wtx]
    insert_or_merge_find [OF im]
  by simp



text \<open>
  Where the first call returned true, the ownership test is the same in both calls and
  the bitmap of a record found under the hash reached its outputs, the second call
  leaves \<^verbatim>\<open>mapWallet\<close> as the first one left it.
\<close>

lemma AddToWallet_again_same:
  assumes ok: "fst (AddToWallet e1 io1 st wtxIn) = Inr True"
    and mine: "IsMine e2 = IsMine e1"
    and len: "\<forall>found. map_of (fst st) (GetHash wtxIn) = Some found \<longrightarrow>
                length (vout found) \<le> length (vfSpent found)"
  shows "fst (snd (AddToWallet e2 io2 (snd (AddToWallet e1 io1 st wtxIn)) wtxIn))
      = fst (snd (AddToWallet e1 io1 st wtxIn))"
proof -
  let ?st1 = "snd (AddToWallet e1 io1 st wtxIn)"
  obtain fInsertedNew fUpdated wtx m1 where
    im: "insert_or_merge io1 (fst st) wtxIn = (fInsertedNew, fUpdated, wtx, m1)"
    by (cases "insert_or_merge io1 (fst st) wtxIn") auto
  from AddToWallet_stored [OF im, of e1] obtain r where
    r: "map_of (fst ?st1) (GetHash wtxIn) = Some r" "spent_grown wtx r" by blast
  have meta: "merged_in wtxIn r"
    using insert_or_merge_absorbs(1) [OF im len] r(2) by (rule merged_in_grown)
  have bits: "spent_in (vfSpent wtxIn) (vfSpent r)"
    using insert_or_merge_absorbs(2) [OF im len r(2)] .
  have im2: "insert_or_merge io2 (fst ?st1) wtxIn = (False, False, r, fst ?st1)"
    using insert_or_merge_again [OF r(1) meta] UpdateSpent_absorbed [OF bits]
      update_triv [OF r(1)]
    by simp
  from AddToWallet_completed [OF im ok] obtain vu where
    run: "WalletUpdateSpent_loop e1 (vin wtx) (m1, vu) = (None, ?st1)" by blast
  have again: "WalletUpdateSpent_loop e2 (vin r) (fst ?st1, vu') = (None, (fst ?st1, vu'))" for vu'
    using WalletUpdateSpent_loop_again [OF run, of vu'] grown_fields(2) [OF r(2)]
      WalletUpdateSpent_loop_IsMine [OF mine]
    by simp
  show ?thesis
    using im2 again by (simp add: AddToWallet_def WalletUpdateSpent_def split: option.splits)
qed


text \<open>
  Adding the same transaction again once it is in a block merges the block hash and the
  merkle data into the record, which keeps its time of receipt.
\<close>

lemma AddToWallet_confirmed_tx:
  "AddToWallet demo_env demo_io (spent_wallet, [4, 1])
       (spend_tx\<lparr>blockHash := 9, merkleBranch := [5], merkleIndex := 2\<rparr>)
     = (Inr True,
        ([(1, (demo_tx 1 [30])\<lparr>vfSpent := [True]\<rparr>), (2, demo_tx 2 [50]), (3, demo_tx 3 [120]),
          (4, spend_tx\<lparr>blockHash := 9, merkleBranch := [5], merkleIndex := 2,
                        nTimeReceived := 1000\<rparr>)],
         [4, 1, 4]))"
  by (simp add: AddToWallet_def insert_or_merge_def merge_record_def UpdateSpent_def
      WalletUpdateSpent_def spent_wallet_def spend_tx_def demo_io_def demo_env_def demo_tx_def
      IsSpent_def MarkSpent_def Let_def)




end
